theory Spec2Isabelle
  imports Main "HOL-Library.AList"
begin

section \<open>JavaScript strings\<close>

text \<open>
  Strings are lists of characters, and a character is a code unit below 256: the strings
  of the model are the Latin-1 strings. On these, \<^verbatim>\<open>toLowerCase\<close> maps the capital letters
  \<^verbatim>\<open>A\<close> to \<^verbatim>\<open>Z\<close> and \<^verbatim>\<open>U+00C0\<close> to \<^verbatim>\<open>U+00DE\<close> (the sign \<^verbatim>\<open>U+00D7\<close> apart) to the small letter
  32 places further on and leaves every other character alone. \<^verbatim>\<open>toUpperCase\<close> is applied
  to HTTP verbs and to the first letter of a path segment, which are ASCII (the URL parser
  percent-encodes everything else), and is modelled on the ASCII letters.
\<close>

definition isDigit :: "char \<Rightarrow> bool" where
  "isDigit c = (c \<in> set ''0123456789'')"

text \<open>The class \<^verbatim>\<open>[a-f0-9]\<close> under the flag \<^verbatim>\<open>i\<close>.\<close>

definition isHex :: "char \<Rightarrow> bool" where
  "isHex c = (c \<in> set ''0123456789abcdefABCDEF'')"

text \<open>The class \<^verbatim>\<open>[a-z0-9]\<close> under the flag \<^verbatim>\<open>i\<close>.\<close>

definition isAlnum :: "char \<Rightarrow> bool" where
  "isAlnum c = (c \<in> set ''0123456789abcdefghijklmnopqrstuvwxyzABCDEFGHIJKLMNOPQRSTUVWXYZ'')"

definition isDash :: "char \<Rightarrow> bool" where
  "isDash c = (c = CHR ''-'')"

definition latin_capitals :: string where
  "latin_capitals =
     [CHR 0xC0, CHR 0xC1, CHR 0xC2, CHR 0xC3, CHR 0xC4, CHR 0xC5, CHR 0xC6, CHR 0xC7, CHR 0xC8, CHR 0xC9,
      CHR 0xCA, CHR 0xCB, CHR 0xCC, CHR 0xCD, CHR 0xCE, CHR 0xCF, CHR 0xD0, CHR 0xD1, CHR 0xD2, CHR 0xD3,
      CHR 0xD4, CHR 0xD5, CHR 0xD6, CHR 0xD8, CHR 0xD9, CHR 0xDA, CHR 0xDB, CHR 0xDC, CHR 0xDD, CHR 0xDE]"

definition latin_smalls :: string where
  "latin_smalls =
     [CHR 0xE0, CHR 0xE1, CHR 0xE2, CHR 0xE3, CHR 0xE4, CHR 0xE5, CHR 0xE6, CHR 0xE7, CHR 0xE8, CHR 0xE9,
      CHR 0xEA, CHR 0xEB, CHR 0xEC, CHR 0xED, CHR 0xEE, CHR 0xEF, CHR 0xF0, CHR 0xF1, CHR 0xF2, CHR 0xF3,
      CHR 0xF4, CHR 0xF5, CHR 0xF6, CHR 0xF8, CHR 0xF9, CHR 0xFA, CHR 0xFB, CHR 0xFC, CHR 0xFD, CHR 0xFE]"

definition toLowerChar :: "char \<Rightarrow> char" where
  "toLowerChar c =
     (case map_of (zip (''ABCDEFGHIJKLMNOPQRSTUVWXYZ'' @ latin_capitals)
                       (''abcdefghijklmnopqrstuvwxyz'' @ latin_smalls)) c of
        Some d \<Rightarrow> d | None \<Rightarrow> c)"

definition toUpperChar :: "char \<Rightarrow> char" where
  "toUpperChar c =
     (case map_of (zip ''abcdefghijklmnopqrstuvwxyz'' ''ABCDEFGHIJKLMNOPQRSTUVWXYZ'') c of
        Some d \<Rightarrow> d | None \<Rightarrow> c)"

definition toLowerCase :: "string \<Rightarrow> string" where
  "toLowerCase s = map toLowerChar s"

definition toUpperCase :: "string \<Rightarrow> string" where
  "toUpperCase s = map toUpperChar s"

text \<open>\<^verbatim>\<open>str.charAt(0).toUpperCase() + str.slice(1)\<close>\<close>

definition capitalize :: "string \<Rightarrow> string" where
  "capitalize str = toUpperCase (take 1 str) @ drop 1 str"

definition startsWith :: "string \<Rightarrow> string \<Rightarrow> bool" where
  "startsWith s t = (take (length t) s = t)"

text \<open>\<^verbatim>\<open>s.includes(t)\<close>: \<open>t\<close> occurs in \<open>s\<close> as a substring.\<close>

fun includes_str :: "string \<Rightarrow> string \<Rightarrow> bool" where
  "includes_str [] t = (t = [])"
| "includes_str (c # cs) t = (startsWith (c # cs) t \<or> includes_str cs t)"

text \<open>\<^verbatim>\<open>s.split(d)\<close> for a one-character separator: never empty, \<open>''''\<close> splits to \<open>['''']\<close>.\<close>

fun split_on :: "char \<Rightarrow> string \<Rightarrow> string list" where
  "split_on d [] = [[]]"
| "split_on d (c # cs) =
     (if c = d then [] # split_on d cs
      else (case split_on d cs of [] \<Rightarrow> [[c]] | s # ss \<Rightarrow> (c # s) # ss))"

text \<open>\<^verbatim>\<open>segs.join('/')\<close>\<close>

fun join_slash :: "string list \<Rightarrow> string" where
  "join_slash [] = []"
| "join_slash [s] = s"
| "join_slash (s # t # ts) = s @ CHR ''/'' # join_slash (t # ts)"

text \<open>\<^verbatim>\<open>pathname.split('/').filter(Boolean)\<close>: the non-empty segments.\<close>

definition path_segments :: "string \<Rightarrow> string list" where
  "path_segments pathname = filter (\<lambda>s. s \<noteq> []) (split_on (CHR ''/'') pathname)"

text \<open>Decimal rendering of a number, as a template string or a property key renders it.\<close>

definition digit_char :: "nat \<Rightarrow> char" where
  "digit_char d = ''0123456789'' ! d"

fun show_nat :: "nat \<Rightarrow> string" where
  "show_nat n = (if n < 10 then [digit_char n] else show_nat (n div 10) @ [digit_char (n mod 10)])"

declare show_nat.simps [simp del]

section \<open>Regular-expression replacement\<close>

text \<open>
  \<^verbatim>\<open>str.replace(re, r)\<close> with a global regular expression: scan from the left; where the
  expression matches, write \<open>r\<close> and go on behind the match; elsewhere copy the character.
  A matcher gives the length of the match at the start of its argument; the expressions
  of this program never match the empty string.
\<close>

function replace_all :: "(string \<Rightarrow> nat option) \<Rightarrow> string \<Rightarrow> string \<Rightarrow> string" where
  "replace_all m r [] = []"
| "replace_all m r (c # cs) =
     (case m (c # cs) of
        Some n \<Rightarrow> r @ replace_all m r (drop (n - 1) cs)
      | None \<Rightarrow> c # replace_all m r cs)"
  by pat_completeness auto
termination
  by (relation "measure (\<lambda>(m, r, s). length s)") auto

text \<open>The lookahead \<^verbatim>\<open>(?=\/|$)\<close>: a slash follows, or the string ends. Nothing is consumed.\<close>

definition lookahead_end :: "string \<Rightarrow> bool" where
  "lookahead_end s = (case s of [] \<Rightarrow> True | c # _ \<Rightarrow> c = CHR ''/'')"

text \<open>The group \<^verbatim>\<open>(\/|$)\<close>: a slash is consumed, or the string ends.\<close>

definition slash_or_end :: "string \<Rightarrow> nat option" where
  "slash_or_end s = (case s of [] \<Rightarrow> Some 0 | c # _ \<Rightarrow> if c = CHR ''/'' then Some 1 else None)"

text \<open>\<^verbatim>\<open>[class]{n}\<close>: exactly \<open>n\<close> characters of a class; the rest of the string is returned.\<close>

fun eat :: "(char \<Rightarrow> bool) \<Rightarrow> nat \<Rightarrow> string \<Rightarrow> string option" where
  "eat P 0 s = Some s"
| "eat P (Suc n) [] = None"
| "eat P (Suc n) (c # cs) = (if P c then eat P n cs else None)"

text \<open>A sequence of counted classes, such as \<^verbatim>\<open>[a-f0-9]{8}-[a-f0-9]{4}\<close>.\<close>

fun eat_seq :: "((char \<Rightarrow> bool) \<times> nat) list \<Rightarrow> string \<Rightarrow> string option" where
  "eat_seq [] s = Some s"
| "eat_seq ((P, n) # ps) s = (case eat P n s of None \<Rightarrow> None | Some r \<Rightarrow> eat_seq ps r)"

text \<open>\<^verbatim>\<open>[a-f0-9]{8}-[a-f0-9]{4}-[a-f0-9]{4}-[a-f0-9]{4}-[a-f0-9]{12}\<close> and \<^verbatim>\<open>[a-f0-9]{24}\<close>, flag \<^verbatim>\<open>i\<close>.\<close>

definition uuid_shape :: "((char \<Rightarrow> bool) \<times> nat) list" where
  "uuid_shape = [(isHex, 8), (isDash, 1), (isHex, 4), (isDash, 1), (isHex, 4), (isDash, 1),
                 (isHex, 4), (isDash, 1), (isHex, 12)]"

definition objectid_shape :: "((char \<Rightarrow> bool) \<times> nat) list" where
  "objectid_shape = [(isHex, 24)]"

subsection \<open>The expressions of \<^verbatim>\<open>OpenAPIGenerator.normalizePath\<close>\<close>

text \<open>
  \<^verbatim>\<open>/\/(\d+)(?=\/|$)/g\<close>. The quantifier is greedy; a shorter run of digits is followed by
  a digit, where the lookahead fails, so backtracking finds nothing more.
\<close>

definition match_numeric :: "string \<Rightarrow> nat option" where
  "match_numeric s =
     (case s of [] \<Rightarrow> None
      | c # cs \<Rightarrow>
          if c = CHR ''/'' \<and> takeWhile isDigit cs \<noteq> [] \<and> lookahead_end (dropWhile isDigit cs)
          then Some (Suc (length (takeWhile isDigit cs))) else None)"

text \<open>A slash, a sequence of counted classes, and the lookahead.\<close>

definition match_fixed :: "((char \<Rightarrow> bool) \<times> nat) list \<Rightarrow> string \<Rightarrow> nat option" where
  "match_fixed ps s =
     (case s of [] \<Rightarrow> None
      | c # cs \<Rightarrow>
          if c = CHR ''/'' then
            (case eat_seq ps cs of
               None \<Rightarrow> None
             | Some r \<Rightarrow> if lookahead_end r then Some (Suc (length cs - length r)) else None)
          else None)"

definition normalizePath :: "string \<Rightarrow> string" where
  "normalizePath pathname =
     (let normalized = replace_all match_numeric ''/{id}'' pathname;
          normalized = replace_all (match_fixed uuid_shape) ''/{uuid}'' normalized;
          normalized = replace_all (match_fixed objectid_shape) ''/{objectId}'' normalized
      in normalized)"

subsection \<open>The expressions of \<^verbatim>\<open>APIAnalyzer.patterns.idPatterns\<close>\<close>

text \<open>
  \<^verbatim>\<open>/\/\d+(\/|$)/g\<close> and \<^verbatim>\<open>/\/[a-f0-9]{8,}(\/|$)/gi\<close>: a slash, a greedy run of at least
  \<open>k\<close> characters of the class, then a slash (consumed) or the end.
\<close>

definition match_run :: "(char \<Rightarrow> bool) \<Rightarrow> nat \<Rightarrow> string \<Rightarrow> nat option" where
  "match_run P k s =
     (case s of [] \<Rightarrow> None
      | c # cs \<Rightarrow>
          if c = CHR ''/'' \<and> k \<le> length (takeWhile P cs) then
            (case slash_or_end (dropWhile P cs) of
               None \<Rightarrow> None
             | Some t \<Rightarrow> Some (Suc (length (takeWhile P cs)) + t))
          else None)"

text \<open>\<^verbatim>\<open>/\/[a-z0-9]{24}(\/|$)/gi\<close>\<close>

definition match_alnum24 :: "string \<Rightarrow> nat option" where
  "match_alnum24 s =
     (case s of [] \<Rightarrow> None
      | c # cs \<Rightarrow>
          if c = CHR ''/'' then
            (case eat isAlnum 24 cs of
               None \<Rightarrow> None
             | Some r \<Rightarrow> (case slash_or_end r of None \<Rightarrow> None | Some t \<Rightarrow> Some (25 + t)))
          else None)"

definition idPatterns :: "(string \<Rightarrow> nat option) list" where
  "idPatterns = [match_run isDigit 1, match_run isHex 8, match_alnum24]"

text \<open>\<^verbatim>\<open>APIAnalyzer.normalizePath\<close>: every pattern in turn, each replaced by \<^verbatim>\<open>/{id}\<close>.\<close>

definition analyzer_normalizePath :: "string \<Rightarrow> string" where
  "analyzer_normalizePath path = foldl (\<lambda>normalized pattern. replace_all pattern ''/{id}'' normalized) path idPatterns"

subsection \<open>The per-segment tests of \<^verbatim>\<open>extractPathParameters\<close>\<close>

text \<open>\<^verbatim>\<open>segment.match(/^\d+$/)\<close>, and the anchored UUID and ObjectId expressions.\<close>

definition is_numeric :: "string \<Rightarrow> bool" where
  "is_numeric segment = (segment \<noteq> [] \<and> list_all isDigit segment)"

definition is_uuid :: "string \<Rightarrow> bool" where
  "is_uuid segment = (eat_seq uuid_shape segment = Some [])"

definition is_objectid :: "string \<Rightarrow> bool" where
  "is_objectid segment = (eat_seq objectid_shape segment = Some [])"

text \<open>The templating rule of the specification, one segment at a time, in priority order.\<close>

definition template_segment :: "string \<Rightarrow> string" where
  "template_segment segment =
     (if is_numeric segment then ''{id}''
      else if is_uuid segment then ''{uuid}''
      else if is_objectid segment then ''{objectId}''
      else segment)"

text \<open>
  The rule applied to a whole path: every segment that follows a slash is templated; what
  stands before the first slash (empty for a URL path name) is kept.
\<close>

definition template_of :: "string \<Rightarrow> string" where
  "template_of path =
     (case split_on (CHR ''/'') path of
        [] \<Rightarrow> []
      | s0 # segs \<Rightarrow> join_slash (s0 # map template_segment segs))"


section \<open>Objects, sets and maps of the run time\<close>

text \<open>
  An object literal, a \<^verbatim>\<open>Map\<close> and the entries of \<^verbatim>\<open>Object.entries\<close> are association
  lists in the order of their entries; an assignment \<^verbatim>\<open>obj[k] = v\<close> and \<^verbatim>\<open>map.set(k, v)\<close> are
  \<^const>\<open>AList.update\<close> (the entry keeps its place, a new one goes to the end). A \<^verbatim>\<open>Set\<close> is
  the list of its elements in insertion order.
\<close>

definition set_add :: "'a list \<Rightarrow> 'a \<Rightarrow> 'a list" where
  "set_add xs x = (if x \<in> set xs then xs else xs @ [x])"

text \<open>\<^verbatim>\<open>new Set(xs)\<close>\<close>

definition new_Set :: "'a list \<Rightarrow> 'a list" where
  "new_Set xs = foldl set_add [] xs"

text \<open>\<^verbatim>\<open>xs[xs.length - 1] || d\<close> on a list of non-empty strings.\<close>

definition last_or :: "string list \<Rightarrow> string \<Rightarrow> string" where
  "last_or xs d = (if xs = [] then d else last xs)"

section \<open>Observations and the platform's URL parser\<close>

text \<open>
  An optional field is \<open>None\<close> where the observation has \<^verbatim>\<open>undefined\<close>. \<^verbatim>\<open>new URL(s)\<close> belongs
  to the platform, so it is a parameter of the model: \<open>None\<close> where it throws \<^verbatim>\<open>TypeError\<close>.
\<close>

record endpoint =
  ep_url :: string
  ep_method :: string
  ep_status :: "nat option"
  ep_contentType :: "string option"
  ep_pathname :: string
  ep_searchParams :: "(string \<times> string) list option"
  ep_headers :: "(string \<times> string) list option"

record url =
  url_protocol :: string
  url_hostname :: string
  url_origin :: string
  url_pathname :: string

type_synonym url_parser = "string \<Rightarrow> url option"

section \<open>The document\<close>

record property =
  pr_type :: string
  pr_example :: "string option"

record schema =
  sc_type :: string
  sc_properties :: "(string \<times> property) list"
  sc_required :: "string list option"

record parameter =
  pa_name :: string
  pa_in :: string
  pa_required :: bool
  pa_schema_type :: string
  pa_example :: "string option"
  pa_description :: string

text \<open>A content map takes a media type to the \<^verbatim>\<open>$ref\<close> of its schema.\<close>

record response =
  rs_description :: string
  rs_content :: "(string \<times> string) list"

record request_body =
  rb_required :: bool
  rb_content :: "(string \<times> string) list"

text \<open>\<open>op_security\<close> lists the names of the required schemes: \<^verbatim>\<open>[{bearerAuth: []}]\<close> or \<^verbatim>\<open>[]\<close>.\<close>

record operation =
  op_operationId :: string
  op_tags :: "string list"
  op_summary :: string
  op_description :: string
  op_parameters :: "parameter list"
  op_responses :: "(string \<times> response) list"
  op_security :: "string list"
  op_requestBody :: "request_body option"

record security_scheme =
  ss_type :: string
  ss_scheme :: string
  ss_bearerFormat :: string

record components =
  co_schemas :: "(string \<times> schema) list"
  co_securitySchemes :: "(string \<times> security_scheme) list option"

record link =
  ln_name :: string
  ln_url :: string

record info =
  in_title :: string
  in_version :: string
  in_description :: string
  in_contact :: "link option"
  in_license :: "link option"

record tag =
  tg_name :: string
  tg_description :: string

record metadata =
  md_totalEndpoints :: nat
  md_discoveryDate :: string
  md_extensionVersion :: string

type_synonym paths = "(string \<times> (string \<times> operation) list) list"

record document =
  d_openapi :: string
  d_info :: info
  d_servers :: "string list"
  d_paths :: paths
  d_components :: components
  d_tags :: "tag list"
  d_source_url :: "string option"
  d_discovery_metadata :: "metadata option"

record options =
  o_title :: "string option"
  o_version :: "string option"
  o_description :: "string option"
  o_contact :: "link option"
  o_license :: "link option"
  o_sourceUrl :: "string option"

text \<open>\<^verbatim>\<open>x || d\<close> on an optional string: \<^verbatim>\<open>undefined\<close> and the empty string are falsy.\<close>

definition or_default :: "string option \<Rightarrow> string \<Rightarrow> string" where
  "or_default x d = (case x of None \<Rightarrow> d | Some s \<Rightarrow> if s = [] then d else s)"

section \<open>\<^verbatim>\<open>OpenAPIGenerator\<close>\<close>

text \<open>The two caches are fields of the instance; the constructor is the only place that empties them.\<close>

record generator =
  schemaCache :: "(string \<times> schema) list"
  operationIdCache :: "string list"

definition new_generator :: generator where
  "new_generator = \<lparr>schemaCache = [], operationIdCache = []\<rparr>"

definition generateEmptySpec :: document where
  "generateEmptySpec =
     \<lparr>d_openapi = ''3.0.3'',
      d_info = \<lparr>in_title = ''Discovered API'', in_version = ''0.1.0'',
                in_description = ''No API endpoints discovered yet. Start discovery to generate specifications.'',
                in_contact = None, in_license = None\<rparr>,
      d_servers = [''https://example.com''],
      d_paths = [],
      d_components = \<lparr>co_schemas = [], co_securitySchemes = None\<rparr>,
      d_tags = [],
      d_source_url = None,
      d_discovery_metadata = None\<rparr>"

definition generateInfo :: "options \<Rightarrow> info" where
  "generateInfo opts =
     \<lparr>in_title = or_default (o_title opts) ''Discovered API'',
      in_version = or_default (o_version opts) ''0.1.0'',
      in_description = or_default (o_description opts) ''API discovered automatically by Chrome Extension'',
      in_contact = Some (case o_contact opts of
                           Some c \<Rightarrow> c
                         | None \<Rightarrow> \<lparr>ln_name = ''API Discovery Extension'',
                                     ln_url = ''https://github.com/yourusername/chrome-api-discovery''\<rparr>),
      in_license = Some (case o_license opts of
                           Some l \<Rightarrow> l
                         | None \<Rightarrow> \<lparr>ln_name = ''MIT'', ln_url = ''https://opensource.org/licenses/MIT''\<rparr>)\<rparr>"

text \<open>
  \<^verbatim>\<open>endpoints.map(e => origin or null).filter(Boolean)\<close>: the origins of the URLs that
  parse (\<^verbatim>\<open>filter(Boolean)\<close> also drops an empty string).
\<close>

definition origins :: "url_parser \<Rightarrow> endpoint list \<Rightarrow> string list" where
  "origins parse endpoints =
     filter (\<lambda>s. s \<noteq> [])
       (concat (map (\<lambda>e. case parse (ep_url e) of None \<Rightarrow> [] | Some u \<Rightarrow> [url_origin u]) endpoints))"

definition generateServers :: "url_parser \<Rightarrow> string \<Rightarrow> endpoint list \<Rightarrow> string list" where
  "generateServers parse baseURL endpoints =
     (let servers = [baseURL];
          uniqueHosts = new_Set (origins parse endpoints)
      in if length uniqueHosts > 1
         then servers @ filter (\<lambda>host. host \<noteq> baseURL) uniqueHosts
         else servers)"

definition determineBaseURL :: "url_parser \<Rightarrow> endpoint list \<Rightarrow> string" where
  "determineBaseURL parse endpoints =
     (case endpoints of
        [] \<Rightarrow> ''https://example.com''
      | e # _ \<Rightarrow>
          (case parse (ep_url e) of
             Some u \<Rightarrow> url_protocol u @ ''//'' @ url_hostname u
           | None \<Rightarrow> ''https://example.com''))"

subsection \<open>Operation identifiers\<close>

definition methodPrefix :: "string \<Rightarrow> string" where
  "methodPrefix m =
     (case map_of [(''GET'', ''get''), (''POST'', ''create''), (''PUT'', ''update''),
                   (''DELETE'', ''delete''), (''PATCH'', ''patch''), (''HEAD'', ''head''),
                   (''OPTIONS'', ''options'')] (toUpperCase m) of
        Some p \<Rightarrow> p
      | None \<Rightarrow> toLowerCase m)"


text \<open>
  The loop \<^verbatim>\<open>while (cache.has(operationId)) { operationId = base + counter; counter++ }\<close>.
  It ends because the cache is finite and the decimal renderings of different counters
  differ.
\<close>

definition digits_value :: "string \<Rightarrow> nat" where
  "digits_value s = foldl (\<lambda>a c. 10 * a + (of_char c - 48)) 0 s"

lemma digit_char_value: "d < 10 \<Longrightarrow> of_char (digit_char d) - 48 = d"
proof -
  assume "d < 10"
  then have "d \<in> {0, 1, 2, 3, 4, 5, 6, 7, 8, 9}" by auto
  then show ?thesis by (auto simp: digit_char_def)
qed

lemma digits_value_show_nat: "digits_value (show_nat n) = n"
proof (induction n rule: show_nat.induct)
  case (1 n)
  show ?case
  proof (cases "n < 10")
    case True
    then show ?thesis by (subst show_nat.simps) (simp add: digits_value_def digit_char_value)
  next
    case False
    with 1 have "digits_value (show_nat (n div 10)) = n div 10" by simp
    with False show ?thesis
      by (subst show_nat.simps) (simp add: digits_value_def digit_char_value)
  qed
qed

lemma show_nat_inj: "show_nat a = show_nat b \<Longrightarrow> a = b"
  by (metis digits_value_show_nat)

function unique_loop :: "string list \<Rightarrow> string \<Rightarrow> nat \<Rightarrow> string \<Rightarrow> string" where
  "unique_loop cache base counter operationId =
     (if operationId \<in> set cache
      then unique_loop cache base (Suc counter) (base @ show_nat counter)
      else operationId)"
  by pat_completeness auto
termination
proof (relation "measure (\<lambda>(cache, base, counter, operationId).
         card {s \<in> set cache. \<exists>k\<ge>counter. s = base @ show_nat k}
         + (if operationId \<in> set cache then 1 else 0))", goal_cases)
  case 1
  then show ?case by simp
next
  case (2 cache base counter operationId)
  let ?A = "\<lambda>c. {s \<in> set cache. \<exists>k\<ge>c. s = base @ show_nat k}"
  have sub: "?A (Suc counter) \<subseteq> ?A counter" by (auto intro: Suc_leD)
  have fin: "finite (?A counter)" by simp
  show ?case
  proof (cases "base @ show_nat counter \<in> set cache")
    case True
    have "base @ show_nat counter \<in> ?A counter" using True by auto
    moreover have "base @ show_nat counter \<notin> ?A (Suc counter)"
      using show_nat_inj by fastforce
    ultimately have "?A (Suc counter) \<subset> ?A counter" using sub by blast
    then have "card (?A (Suc counter)) < card (?A counter)"
      using fin by (rule psubset_card_mono[rotated])
    with 2 True show ?thesis by simp
  next
    case False
    have "card (?A (Suc counter)) \<le> card (?A counter)"
      using fin sub by (rule card_mono)
    with 2 False show ?thesis by simp
  qed
qed

declare unique_loop.simps [simp del]

definition generateUniqueOperationId :: "generator \<Rightarrow> string \<Rightarrow> string \<Rightarrow> string \<times> generator" where
  "generateUniqueOperationId g m pathname =
     (let segments = path_segments pathname;
          resource = last_or segments ''item'';
          operationId = methodPrefix m @ capitalize resource;
          operationId = unique_loop (operationIdCache g) (methodPrefix m @ capitalize resource) 1 operationId
      in (operationId, g\<lparr>operationIdCache := set_add (operationIdCache g) operationId\<rparr>))"

subsection \<open>The parts of an operation\<close>

definition generateOperationTags :: "string \<Rightarrow> string list" where
  "generateOperationTags pathname =
     (let segments = path_segments pathname
      in (if length segments > 0 then [segments ! 0] else [])
         @ (if length segments > 2 then [segments ! 1] else []))"

definition extractResourceName :: "string \<Rightarrow> string" where
  "extractResourceName pathname = last_or (path_segments pathname) ''resource''"

definition generateOperationSummary :: "endpoint \<Rightarrow> string" where
  "generateOperationSummary e =
     (let m = toUpperCase (ep_method e);
          resource = extractResourceName (ep_pathname e)
      in if m = ''GET'' then ''Retrieve '' @ resource
         else if m = ''POST'' then ''Create '' @ resource
         else if m = ''PUT'' then ''Update '' @ resource
         else if m = ''DELETE'' then ''Delete '' @ resource
         else if m = ''PATCH'' then ''Partially update '' @ resource
         else m @ '' '' @ resource)"

definition generateOperationDescription :: "endpoint \<Rightarrow> string" where
  "generateOperationDescription e =
     toUpperCase (ep_method e) @ '' operation for '' @ extractResourceName (ep_pathname e)
       @ '' at '' @ ep_pathname e @ ''. Discovered automatically by API Discovery extension.''"

record path_param =
  pp_name :: string
  pp_type :: string
  pp_format :: "string option"
  pp_resource :: string

definition getResourceFromSegment :: "string list \<Rightarrow> nat \<Rightarrow> string" where
  "getResourceFromSegment segments index = (if index > 0 then segments ! (index - 1) else ''resource'')"

definition extractPathParameters :: "string \<Rightarrow> path_param list" where
  "extractPathParameters pathname =
     (let segments = split_on (CHR ''/'') pathname
      in concat (map (\<lambda>index.
           let segment = segments ! index in
           if is_numeric segment then
             [\<lparr>pp_name = ''id'', pp_type = ''integer'', pp_format = None,
               pp_resource = getResourceFromSegment segments index\<rparr>]
           else if is_uuid segment then
             [\<lparr>pp_name = ''uuid'', pp_type = ''string'', pp_format = Some ''uuid'',
               pp_resource = getResourceFromSegment segments index\<rparr>]
           else if is_objectid segment then
             [\<lparr>pp_name = ''objectId'', pp_type = ''string'', pp_format = None,
               pp_resource = getResourceFromSegment segments index\<rparr>]
           else []) [0..<length segments]))"


subsection \<open>\<^verbatim>\<open>isNaN\<close> on a string\<close>

text \<open>
  \<^verbatim>\<open>isNaN(s)\<close> converts the string to a number first. The conversion strips white space
  and line terminators from both ends and gives \<^verbatim>\<open>NaN\<close> exactly when what is left is neither
  empty nor a numeric literal: a signed decimal literal (digits, an optional fraction, an
  optional exponent, or \<^verbatim>\<open>Infinity\<close>) or an unsigned binary, octal or hexadecimal integer
  literal. Among the characters below 256 the white space and line terminators are tab,
  line feed, vertical tab, form feed, carriage return, space and the no-break space
  \<^verbatim>\<open>U+00A0\<close>.
\<close>

definition isWhite :: "char \<Rightarrow> bool" where
  "isWhite c = (c \<in> set [CHR 0x09, CHR 0x0A, CHR 0x0B, CHR 0x0C, CHR 0x0D, CHR 0x20, CHR 0xA0])"

definition trim :: "string \<Rightarrow> string" where
  "trim s = rev (dropWhile isWhite (rev (dropWhile isWhite s)))"

definition strip_sign :: "string \<Rightarrow> string" where
  "strip_sign s = (case s of [] \<Rightarrow> [] | c # r \<Rightarrow> if c = CHR ''+'' \<or> c = CHR ''-'' then r else s)"

definition exponent_part :: "string \<Rightarrow> bool" where
  "exponent_part s =
     (case s of [] \<Rightarrow> False | c # r \<Rightarrow> (c = CHR ''e'' \<or> c = CHR ''E'') \<and> is_numeric (strip_sign r))"

definition unsigned_decimal :: "string \<Rightarrow> bool" where
  "unsigned_decimal s =
     (s = ''Infinity'' \<or>
      (let ds = takeWhile isDigit s; r = dropWhile isDigit s
       in case r of
            [] \<Rightarrow> ds \<noteq> []
          | c # r2 \<Rightarrow>
              if c = CHR ''.'' then
                (let fs = takeWhile isDigit r2; r3 = dropWhile isDigit r2
                 in (ds \<noteq> [] \<or> fs \<noteq> []) \<and> (r3 = [] \<or> exponent_part r3))
              else ds \<noteq> [] \<and> exponent_part r))"

definition non_decimal :: "string \<Rightarrow> bool" where
  "non_decimal s =
     (case s of
        c0 # x # r \<Rightarrow>
          c0 = CHR ''0'' \<and> r \<noteq> [] \<and>
          ((x \<in> set ''xX'' \<and> list_all isHex r) \<or>
           (x \<in> set ''oO'' \<and> list_all (\<lambda>c. c \<in> set ''01234567'') r) \<or>
           (x \<in> set ''bB'' \<and> list_all (\<lambda>c. c \<in> set ''01'') r))
      | _ \<Rightarrow> False)"

definition isNaN :: "string \<Rightarrow> bool" where
  "isNaN s = (let t = trim s in \<not> (t = [] \<or> non_decimal t \<or> unsigned_decimal (strip_sign t)))"

subsection \<open>Parameters\<close>

definition inferParameterType :: "string \<Rightarrow> string" where
  "inferParameterType v =
     (if v = ''true'' \<or> v = ''false'' then ''boolean''
      else if \<not> isNaN v \<and> v \<noteq> [] then ''number''
      else ''string'')"

definition generateParameters :: "endpoint \<Rightarrow> parameter list" where
  "generateParameters e =
     map (\<lambda>param. \<lparr>pa_name = pp_name param, pa_in = ''path'', pa_required = True,
                    pa_schema_type = pp_type param, pa_example = None,
                    pa_description = ''Identifier for '' @ pp_resource param\<rparr>)
         (extractPathParameters (ep_pathname e))
     @ (case ep_searchParams e of
          None \<Rightarrow> []
        | Some entries \<Rightarrow>
            map (\<lambda>(name, v). \<lparr>pa_name = name, pa_in = ''query'', pa_required = False,
                              pa_schema_type = inferParameterType v, pa_example = Some v,
                              pa_description = ''Query parameter: '' @ name\<rparr>) entries)"

subsection \<open>Responses\<close>

definition getStatusDescription :: "nat option \<Rightarrow> string" where
  "getStatusDescription status =
     (case status of
        None \<Rightarrow> ''Response''
      | Some n \<Rightarrow>
          (case map_of [(200, ''OK''), (201, ''Created''), (204, ''No Content''),
                        (400, ''Bad Request''), (401, ''Unauthorized''), (403, ''Forbidden''),
                        (404, ''Not Found''), (409, ''Conflict''), (422, ''Unprocessable Entity''),
                        (429, ''Too Many Requests''), (500, ''Internal Server Error''),
                        (502, ''Bad Gateway''), (503, ''Service Unavailable'')] n of
             Some d \<Rightarrow> d
           | None \<Rightarrow> ''Response''))"

text \<open>The property key that \<^verbatim>\<open>responses[endpoint.status]\<close> writes.\<close>

definition status_key :: "nat option \<Rightarrow> string" where
  "status_key status = (case status of None \<Rightarrow> ''undefined'' | Some n \<Rightarrow> show_nat n)"

definition schema_ref :: "string \<Rightarrow> string" where
  "schema_ref name = ''#/components/schemas/'' @ name"

definition resource_schema :: "string \<Rightarrow> schema" where
  "resource_schema resource =
     \<lparr>sc_type = ''object'',
      sc_properties = [(''id'', \<lparr>pr_type = ''string'', pr_example = Some ''123''\<rparr>),
                       (''name'', \<lparr>pr_type = ''string'', pr_example = Some (''Example '' @ resource)\<rparr>)],
      sc_required = None\<rparr>"

definition generateResponseSchema :: "generator \<Rightarrow> endpoint \<Rightarrow> string \<times> generator" where
  "generateResponseSchema g e =
     (let resource = extractResourceName (ep_pathname e);
          schemaName = capitalize resource
      in if map_of (schemaCache g) schemaName \<noteq> None
         then (schema_ref schemaName, g)
         else (schema_ref schemaName,
               g\<lparr>schemaCache := AList.update schemaName (resource_schema resource) (schemaCache g)\<rparr>))"

definition generateResponseContent :: "generator \<Rightarrow> endpoint \<Rightarrow> (string \<times> string) list \<times> generator" where
  "generateResponseContent g e =
     (let (ref, g') = generateResponseSchema g e
      in (case ep_contentType e of
            None \<Rightarrow> ([(''application/json'', ref)], g')
          | Some ct \<Rightarrow>
              if ct \<noteq> [] \<and> ct \<noteq> ''unknown'' then ([(ct, ref)], g')
              else ([(''application/json'', ref)], g')))"

definition error_content :: "(string \<times> string) list" where
  "error_content = [(''application/json'', schema_ref ''Error'')]"

definition status_at_least :: "nat option \<Rightarrow> nat \<Rightarrow> bool" where
  "status_at_least status n = (case status of None \<Rightarrow> False | Some k \<Rightarrow> k \<ge> n)"

definition generateResponses :: "generator \<Rightarrow> endpoint \<Rightarrow> (string \<times> response) list \<times> generator" where
  "generateResponses g e =
     (let (content, g') = generateResponseContent g e;
          responses = [(status_key (ep_status e),
                        \<lparr>rs_description = getStatusDescription (ep_status e), rs_content = content\<rparr>)];
          responses = (if status_at_least (ep_status e) 400
                       then AList.update ''4xx'' \<lparr>rs_description = ''Client error'', rs_content = error_content\<rparr> responses
                       else responses);
          responses = (if status_at_least (ep_status e) 500
                       then AList.update ''5xx'' \<lparr>rs_description = ''Server error'', rs_content = error_content\<rparr> responses
                       else responses)
      in (responses, g'))"

definition generateRequestBody :: "endpoint \<Rightarrow> request_body" where
  "generateRequestBody e =
     \<lparr>rb_required = True,
      rb_content = [(''application/json'',
                     schema_ref (capitalize (extractResourceName (ep_pathname e)) @ ''Input''))]\<rparr>"

subsection \<open>Security\<close>

definition auth_like :: "string \<Rightarrow> bool" where
  "auth_like h = (includes_str (toLowerCase h) ''authorization''
                  \<or> includes_str (toLowerCase h) ''api-key''
                  \<or> includes_str (toLowerCase h) ''token'')"

definition generateSecurity :: "endpoint \<Rightarrow> string list" where
  "generateSecurity e =
     (case ep_headers e of
        None \<Rightarrow> []
      | Some hs \<Rightarrow> if list_ex auth_like (map fst hs) then [''bearerAuth''] else [])"

definition generateSecuritySchemes :: "endpoint list \<Rightarrow> (string \<times> security_scheme) list" where
  "generateSecuritySchemes endpoints =
     (let hasAuth = list_ex (\<lambda>e. case ep_headers e of
                                    None \<Rightarrow> False
                                  | Some hs \<Rightarrow> list_ex (\<lambda>h. includes_str (toLowerCase h) ''authorization'') (map fst hs))
                            endpoints
      in if hasAuth
         then [(''bearerAuth'', \<lparr>ss_type = ''http'', ss_scheme = ''bearer'', ss_bearerFormat = ''JWT''\<rparr>)]
         else [])"

subsection \<open>Operations and paths\<close>

definition generateOperation :: "generator \<Rightarrow> endpoint \<Rightarrow> operation \<times> generator" where
  "generateOperation g e =
     (let (operationId, g1) = generateUniqueOperationId g (ep_method e) (ep_pathname e);
          (responses, g2) = generateResponses g1 e;
          operation = \<lparr>op_operationId = operationId,
                       op_tags = generateOperationTags (ep_pathname e),
                       op_summary = generateOperationSummary e,
                       op_description = generateOperationDescription e,
                       op_parameters = generateParameters e,
                       op_responses = responses,
                       op_security = generateSecurity e,
                       op_requestBody = None\<rparr>
      in (if toLowerCase (ep_method e) \<in> set [''post'', ''put'', ''patch'']
          then operation\<lparr>op_requestBody := Some (generateRequestBody e)\<rparr>
          else operation, g2))"

text \<open>\<^verbatim>\<open>paths[path]\<close> after \<^verbatim>\<open>if (!paths[path]) paths[path] = {}\<close>.\<close>

definition path_item :: "paths \<Rightarrow> string \<Rightarrow> (string \<times> operation) list" where
  "path_item paths path = (case map_of paths path of None \<Rightarrow> [] | Some item \<Rightarrow> item)"

text \<open>
  The loop of \<^verbatim>\<open>generatePaths\<close>: \<^verbatim>\<open>paths[path][method] = this.generateOperation(endpoint)\<close>
  for every observation in turn. The assignment replaces what the key held.
\<close>

fun generatePaths_from :: "generator \<Rightarrow> paths \<Rightarrow> endpoint list \<Rightarrow> paths \<times> generator" where
  "generatePaths_from g paths [] = (paths, g)"
| "generatePaths_from g paths (e # es) =
     (let path = normalizePath (ep_pathname e);
          m = toLowerCase (ep_method e);
          (operation, g') = generateOperation g e
      in generatePaths_from g' (AList.update path (AList.update m operation (path_item paths path)) paths) es)"

definition generatePaths :: "generator \<Rightarrow> endpoint list \<Rightarrow> paths \<times> generator" where
  "generatePaths g endpoints = generatePaths_from g [] endpoints"


subsection \<open>Groups, schemas and tags\<close>

record group =
  grp_name :: string
  grp_patterns :: "string list"

text \<open>\<^verbatim>\<open>path.split('/')[1] || 'default'\<close>\<close>

definition group_key :: "string \<Rightarrow> string" where
  "group_key path =
     (let parts = split_on (CHR ''/'') path
      in if length parts > 1 \<and> parts ! 1 \<noteq> [] then parts ! 1 else ''default'')"

text \<open>\<^verbatim>\<open>OpenAPIGenerator.analyzeEndpoints\<close>: the templates of the observations, grouped by their first segment.\<close>

definition analyzeEndpoints :: "endpoint list \<Rightarrow> group list" where
  "analyzeEndpoints endpoints =
     map (\<lambda>(key, patterns). \<lparr>grp_name = key, grp_patterns = patterns\<rparr>)
       (foldl (\<lambda>groups e.
                 let path = normalizePath (ep_pathname e);
                     key = group_key path
                 in (case map_of groups key of
                       None \<Rightarrow> AList.update key [path] groups
                     | Some patterns \<Rightarrow> AList.update key (patterns @ [path]) groups))
              [] endpoints)"

text \<open>\<^verbatim>\<open>group.patterns[0]\<close>; a group is made with its first pattern, so the list is never empty.\<close>

definition first_pattern :: "group \<Rightarrow> string" where
  "first_pattern grp = (case grp_patterns grp of [] \<Rightarrow> [] | p # _ \<Rightarrow> p)"

definition input_schema :: "string \<Rightarrow> schema" where
  "input_schema resource =
     \<lparr>sc_type = ''object'',
      sc_properties = [(''name'', \<lparr>pr_type = ''string'', pr_example = Some (''Example '' @ resource)\<rparr>)],
      sc_required = Some [''name'']\<rparr>"

definition error_schema :: schema where
  "error_schema =
     \<lparr>sc_type = ''object'',
      sc_properties = [(''error'', \<lparr>pr_type = ''string'', pr_example = Some ''Error message''\<rparr>),
                       (''code'', \<lparr>pr_type = ''string'', pr_example = Some ''ERROR_CODE''\<rparr>),
                       (''details'', \<lparr>pr_type = ''object'', pr_example = None\<rparr>)],
      sc_required = None\<rparr>"

definition generateSchemas :: "group list \<Rightarrow> (string \<times> schema) list" where
  "generateSchemas groups =
     (let schemas = foldl (\<lambda>schemas grp.
                             let resourceName = extractResourceName (first_pattern grp);
                                 schemaName = capitalize resourceName;
                                 schemas = AList.update schemaName (resource_schema resourceName) schemas
                             in AList.update (schemaName @ ''Input'') (input_schema resourceName) schemas)
                          [] groups
      in AList.update ''Error'' error_schema schemas)"

definition generateComponents :: "endpoint list \<Rightarrow> group list \<Rightarrow> components" where
  "generateComponents endpoints groups =
     \<lparr>co_schemas = generateSchemas groups,
      co_securitySchemes = Some (generateSecuritySchemes endpoints)\<rparr>"

definition generateTags :: "group list \<Rightarrow> tag list" where
  "generateTags groups =
     map (\<lambda>grp. \<lparr>tg_name = extractResourceName (first_pattern grp),
                  tg_description = ''Operations for '' @ extractResourceName (first_pattern grp) @ '' resources''\<rparr>)
         groups"

subsection \<open>The document\<close>

text \<open>
  \<^verbatim>\<open>generateOpenAPISpec\<close>. The clock read by \<^verbatim>\<open>generateExtensions\<close> is the parameter \<open>now\<close>.
  The generator is taken as it stands and returned as the call leaves it: nothing in the
  call empties the caches.
\<close>

definition generateOpenAPISpec ::
  "url_parser \<Rightarrow> string \<Rightarrow> generator \<Rightarrow> endpoint list \<Rightarrow> options \<Rightarrow> document \<times> generator" where
  "generateOpenAPISpec parse now g endpoints opts =
     (if endpoints = [] then (generateEmptySpec, g)
      else
        (let analysis = analyzeEndpoints endpoints;
             baseURL = determineBaseURL parse endpoints;
             (paths, g') = generatePaths g endpoints
         in (\<lparr>d_openapi = ''3.0.3'',
              d_info = generateInfo opts,
              d_servers = generateServers parse baseURL endpoints,
              d_paths = paths,
              d_components = generateComponents endpoints analysis,
              d_tags = generateTags analysis,
              d_source_url = (case o_sourceUrl opts of
                                None \<Rightarrow> None
                              | Some u \<Rightarrow> if u = [] then None else Some u),
              d_discovery_metadata = Some \<lparr>md_totalEndpoints = length endpoints,
                                            md_discoveryDate = now,
                                            md_extensionVersion = ''0.1.0''\<rparr>\<rparr>, g')))"

text \<open>Every \<^verbatim>\<open>$ref\<close> under \<^verbatim>\<open>paths\<close>: in the responses and in the request bodies.\<close>

definition operation_refs :: "operation \<Rightarrow> string list" where
  "operation_refs operation =
     concat (map (\<lambda>(code, r). map snd (rs_content r)) (op_responses operation))
     @ (case op_requestBody operation of None \<Rightarrow> [] | Some rb \<Rightarrow> map snd (rb_content rb))"

definition paths_refs :: "paths \<Rightarrow> string list" where
  "paths_refs paths = concat (map (\<lambda>(path, item). concat (map (\<lambda>(m, operation). operation_refs operation) item)) paths)"

text \<open>A reference resolves when it names an entry of \<^verbatim>\<open>components.schemas\<close>.\<close>

definition resolves :: "document \<Rightarrow> string \<Rightarrow> bool" where
  "resolves doc ref = list_ex (\<lambda>name. ref = schema_ref name) (map fst (co_schemas (d_components doc)))"

text \<open>The operation that \<^verbatim>\<open>paths[path][method]\<close> holds.\<close>

definition lookup_operation :: "paths \<Rightarrow> string \<Rightarrow> string \<Rightarrow> operation option" where
  "lookup_operation paths path m = (case map_of paths path of None \<Rightarrow> None | Some item \<Rightarrow> map_of item m)"


section \<open>\<^verbatim>\<open>APIAnalyzer\<close>\<close>

text \<open>An exception is a value: \<open>Inl TypeError\<close> where \<^verbatim>\<open>new URL\<close> throws and nothing catches it.\<close>

datatype error = TypeError

definition getEndpointGroupKey :: "url_parser \<Rightarrow> endpoint \<Rightarrow> error + string" where
  "getEndpointGroupKey parse e =
     (case parse (ep_url e) of
        None \<Rightarrow> Inl TypeError
      | Some u \<Rightarrow>
          (let pathSegments = path_segments (url_pathname u)
           in if length pathSegments \<ge> 2 then Inr (url_hostname u @ join_slash (take 2 pathSegments))
              else if length pathSegments = 1 then Inr (url_hostname u @ pathSegments ! 0)
              else Inr (url_hostname u)))"

text \<open>\<^verbatim>\<open>getBaseUrl\<close> catches the exception and returns its argument.\<close>

definition getBaseUrl :: "url_parser \<Rightarrow> string \<Rightarrow> string" where
  "getBaseUrl parse s =
     (case parse s of Some u \<Rightarrow> url_protocol u @ ''//'' @ url_hostname u | None \<Rightarrow> s)"

definition extractEndpointPattern :: "url_parser \<Rightarrow> endpoint \<Rightarrow> error + string" where
  "extractEndpointPattern parse e =
     (case parse (ep_url e) of
        None \<Rightarrow> Inl TypeError
      | Some u \<Rightarrow> Inr (analyzer_normalizePath (url_pathname u)))"

record resource_group =
  rg_baseUrl :: string
  rg_hostname :: string
  rg_endpoints :: "endpoint list"
  rg_patterns :: "string list"
  rg_methods :: "string list"
  rg_statusCodes :: "nat option list"

record counted_group = resource_group +
  rg_endpointCount :: nat

text \<open>The body of the loop of \<^verbatim>\<open>groupEndpointsByPattern\<close>, for one observation.\<close>

definition group_step ::
  "url_parser \<Rightarrow> (string \<times> resource_group) list \<Rightarrow> endpoint \<Rightarrow> error + (string \<times> resource_group) list" where
  "group_step parse groups e =
     (case getEndpointGroupKey parse e of
        Inl err \<Rightarrow> Inl err
      | Inr key \<Rightarrow>
          (case (case map_of groups key of
                   Some grp \<Rightarrow> Inr grp
                 | None \<Rightarrow>
                     (case parse (ep_url e) of
                        None \<Rightarrow> Inl TypeError
                      | Some u \<Rightarrow> Inr \<lparr>rg_baseUrl = getBaseUrl parse (ep_url e),
                                       rg_hostname = url_hostname u, rg_endpoints = [],
                                       rg_patterns = [], rg_methods = [], rg_statusCodes = []\<rparr>)) of
             Inl err \<Rightarrow> Inl err
           | Inr grp \<Rightarrow>
               (case extractEndpointPattern parse e of
                  Inl err \<Rightarrow> Inl err
                | Inr pattern \<Rightarrow>
                    Inr (AList.update key
                           (grp\<lparr>rg_endpoints := rg_endpoints grp @ [e],
                                rg_methods := set_add (rg_methods grp) (ep_method e),
                                rg_statusCodes := set_add (rg_statusCodes grp) (ep_status e),
                                rg_patterns := set_add (rg_patterns grp) pattern\<rparr>)
                           groups))))"

fun group_loop ::
  "url_parser \<Rightarrow> (string \<times> resource_group) list \<Rightarrow> endpoint list \<Rightarrow> error + (string \<times> resource_group) list" where
  "group_loop parse groups [] = Inr groups"
| "group_loop parse groups (e # es) =
     (case group_step parse groups e of
        Inl err \<Rightarrow> Inl err
      | Inr groups' \<Rightarrow> group_loop parse groups' es)"

text \<open>The groups, largest first; \<^verbatim>\<open>Array.prototype.sort\<close> is stable, as \<^const>\<open>sort_key\<close> is.\<close>

definition groupEndpointsByPattern :: "url_parser \<Rightarrow> endpoint list \<Rightarrow> error + counted_group list" where
  "groupEndpointsByPattern parse endpoints =
     (case group_loop parse [] endpoints of
        Inl err \<Rightarrow> Inl err
      | Inr groups \<Rightarrow>
          Inr (sort_key (\<lambda>grp. - int (rg_endpointCount grp))
                 (map (\<lambda>(key, grp). resource_group.extend grp
                                        (counted_group.fields (length (rg_endpoints grp))))
                      groups)))"

text \<open>\<^verbatim>\<open>map.set(k, (map.get(k) || 0) + 1)\<close>\<close>

definition bump :: "('k \<times> nat) list \<Rightarrow> 'k \<Rightarrow> ('k \<times> nat) list" where
  "bump counts k = AList.update k ((case map_of counts k of None \<Rightarrow> 0 | Some c \<Rightarrow> c) + 1) counts"

definition sortMapByValue :: "('k \<times> nat) list \<Rightarrow> ('k \<times> nat) list" where
  "sortMapByValue entries = sort_key (\<lambda>(k, v). - int v) entries"

text \<open>
  The statistics, without the average response size (a floating-point quotient) and the
  time range (dates). Here the parser's exception is caught: an observation whose URL does
  not parse adds no host and is counted like every other.
\<close>

record statistics =
  st_totalEndpoints :: nat
  st_uniqueHosts :: "string list"
  st_methods :: "(string \<times> nat) list"
  st_statusCodes :: "(nat option \<times> nat) list"
  st_contentTypes :: "(string \<times> nat) list"

definition generateStatistics :: "url_parser \<Rightarrow> endpoint list \<Rightarrow> statistics" where
  "generateStatistics parse endpoints =
     (let stats = foldl (\<lambda>stats e.
            stats\<lparr>st_uniqueHosts := (case parse (ep_url e) of
                                        None \<Rightarrow> st_uniqueHosts stats
                                      | Some u \<Rightarrow> set_add (st_uniqueHosts stats) (url_hostname u)),
                   st_methods := bump (st_methods stats) (ep_method e),
                   st_statusCodes := bump (st_statusCodes stats) (ep_status e),
                   st_contentTypes := (case ep_contentType e of
                                         None \<Rightarrow> st_contentTypes stats
                                       | Some ct \<Rightarrow> if ct \<noteq> [] \<and> ct \<noteq> ''unknown''
                                                    then bump (st_contentTypes stats) ct
                                                    else st_contentTypes stats)\<rparr>)
          \<lparr>st_totalEndpoints = length endpoints, st_uniqueHosts = [], st_methods = [],
           st_statusCodes = [], st_contentTypes = []\<rparr> endpoints
      in stats\<lparr>st_methods := sortMapByValue (st_methods stats),
               st_statusCodes := sortMapByValue (st_statusCodes stats),
               st_contentTypes := sortMapByValue (st_contentTypes stats)\<rparr>)"

text \<open>
  \<^verbatim>\<open>APIAnalyzer.analyzeEndpoints\<close>: the groups first, then the statistics. The frequency
  tables of \<^verbatim>\<open>extractCommonPatterns\<close> are left out; they are computed after the groups and
  parse the same URLs. \<open>an_statistics = None\<close> is the empty object of the empty input.
\<close>

record analysis =
  an_groups :: "counted_group list"
  an_statistics :: "statistics option"

definition analyzer_analyzeEndpoints :: "url_parser \<Rightarrow> endpoint list \<Rightarrow> error + analysis" where
  "analyzer_analyzeEndpoints parse endpoints =
     (if endpoints = [] then Inr \<lparr>an_groups = [], an_statistics = None\<rparr>
      else
        (case groupEndpointsByPattern parse endpoints of
           Inl err \<Rightarrow> Inl err
         | Inr groups \<Rightarrow>
             Inr \<lparr>an_groups = groups, an_statistics = Some (generateStatistics parse endpoints)\<rparr>))"

subsection \<open>Parameter type inference\<close>

record inferred =
  it_type :: string
  it_example :: "string option"
  it_anyOf :: "string list option"
  it_examples :: "string list option"

text \<open>The type that the loop of \<^verbatim>\<open>inferParameterTypes\<close> adds for one sample.\<close>

definition sample_type :: "string \<Rightarrow> string" where
  "sample_type sample =
     (if sample = ''true'' \<or> sample = ''false'' then ''boolean''
      else if \<not> isNaN sample \<and> sample \<noteq> [] then ''number''
      else ''string'')"

definition inferParameterTypes :: "string list \<Rightarrow> inferred" where
  "inferParameterTypes samples =
     (if samples = [] then \<lparr>it_type = ''string'', it_example = None, it_anyOf = None, it_examples = None\<rparr>
      else
        (let (types, uniqueValues) =
               foldl (\<lambda>(types, uniqueValues) sample.
                        (set_add types (sample_type sample), set_add uniqueValues sample))
                     ([], []) samples
         in if length types = 1
            then \<lparr>it_type = types ! 0, it_example = Some (uniqueValues ! 0),
                  it_anyOf = None, it_examples = None\<rparr>
            else \<lparr>it_type = ''string'', it_example = None,
                  it_anyOf = Some types, it_examples = Some (take 3 uniqueValues)\<rparr>))"

section \<open>\<^verbatim>\<open>Utils\<close>: sanitization\<close>

text \<open>
  The data that \<^verbatim>\<open>sanitizeSensitiveData\<close> walks: scalars, arrays and objects. What the
  function reads of an object is the list of its own entries as \<^verbatim>\<open>Object.entries\<close> gives
  them (distinct keys), and that list is the object here; the prototype of an object is
  not part of the value. The function never looks into a number, so the type of numbers
  is left open.
\<close>

datatype 'n json =
    JNull
  | JBool bool
  | JNum 'n
  | JStr string
  | JArr "'n json list"
  | JObj "(string \<times> 'n json) list"

definition defaultSensitiveKeys :: "string list" where
  "defaultSensitiveKeys =
     [''authorization'', ''cookie'', ''set-cookie'', ''x-api-key'', ''x-csrf-token'',
      ''x-auth-token'', ''x-access-token'', ''x-refresh-token'', ''x-session-id'',
      ''password'', ''secret'', ''token'', ''key'', ''credential'']"

text \<open>\<^verbatim>\<open>allSensitiveKeys.some(sensitive => lowerKey.includes(sensitive))\<close>\<close>

definition is_sensitive :: "string list \<Rightarrow> string \<Rightarrow> bool" where
  "is_sensitive allSensitiveKeys key = list_ex (\<lambda>sensitive. includes_str (toLowerCase key) sensitive) allSensitiveKeys"

text \<open>\<^verbatim>\<open>typeof value === 'object' && value !== null\<close>\<close>

definition is_object :: "'n json \<Rightarrow> bool" where
  "is_object v = (case v of JArr _ \<Rightarrow> True | JObj _ \<Rightarrow> True | _ \<Rightarrow> False)"

text \<open>
  The assignment \<^verbatim>\<open>sanitized[key] = v\<close> on an object that was created by \<^verbatim>\<open>{}\<close>. Such an
  object inherits the accessor \<^verbatim>\<open>__proto__\<close>, so an assignment to that key runs the setter
  and stores no entry. Every other key gets an entry of its own: the value is replaced
  where the key is there already, and the entry is added at the end otherwise.
\<close>

definition set_property :: "(string \<times> 'v) list \<Rightarrow> string \<Rightarrow> 'v \<Rightarrow> (string \<times> 'v) list" where
  "set_property sanitized key v =
     (if key = ''__proto__'' then sanitized else AList.update key v sanitized)"

text \<open>The recursive calls pass the whole list on, so the defaults are added again at every level.\<close>

fun sanitizeSensitiveData :: "'n json \<Rightarrow> string list \<Rightarrow> 'n json" where
  "sanitizeSensitiveData (JArr items) sensitiveKeys =
     JArr (map (\<lambda>item. sanitizeSensitiveData item (defaultSensitiveKeys @ sensitiveKeys)) items)"
| "sanitizeSensitiveData (JObj entries) sensitiveKeys =
     JObj (foldl (\<lambda>sanitized (key, v).
                    set_property sanitized key
                      (if is_sensitive (defaultSensitiveKeys @ sensitiveKeys) key then JStr ''[REDACTED]''
                       else if is_object v then sanitizeSensitiveData v (defaultSensitiveKeys @ sensitiveKeys)
                       else v))
                 [] entries)"
| "sanitizeSensitiveData scalar sensitiveKeys = scalar"

definition isSensitiveHeader :: "string \<Rightarrow> bool" where
  "isSensitiveHeader headerName =
     list_ex (\<lambda>pattern. includes_str headerName pattern)
       [''authorization'', ''cookie'', ''set-cookie'', ''x-api-key'', ''x-csrf-token'',
        ''x-auth-token'', ''x-access-token'', ''x-refresh-token'', ''x-session-id'',
        ''password'', ''secret'', ''token'', ''key'', ''credential'']"

text \<open>\<^verbatim>\<open>sanitizeHeaders\<close>: \<open>None\<close> is an argument that is not an array.\<close>

definition sanitizeHeaders :: "(string \<times> string) list option \<Rightarrow> (string \<times> string) list" where
  "sanitizeHeaders headers =
     (case headers of
        None \<Rightarrow> []
      | Some hs \<Rightarrow>
          foldl (\<lambda>sanitized (name, v).
                   set_property sanitized name
                     (if isSensitiveHeader (toLowerCase name) then ''[REDACTED]'' else v))
                [] hs)"

section \<open>Which observation an operation comes from\<close>

text \<open>The key that \<^verbatim>\<open>generatePaths\<close> writes for an observation: its template and its lower-cased method.\<close>

definition operation_key :: "endpoint \<Rightarrow> string \<times> string" where
  "operation_key e = (normalizePath (ep_pathname e), toLowerCase (ep_method e))"

text \<open>The last observation of a sequence that has a given key.\<close>

definition last_observation :: "string \<times> string \<Rightarrow> endpoint list \<Rightarrow> endpoint option" where
  "last_observation k endpoints = find (\<lambda>e. operation_key e = k) (rev endpoints)"

text \<open>The identifier of an operation before the uniqueness loop.\<close>

definition base_operationId :: "endpoint \<Rightarrow> string" where
  "base_operationId e =
     methodPrefix (ep_method e) @ capitalize (last_or (path_segments (ep_pathname e)) ''item'')"


text \<open>An observation carries a header whose name satisfies a test.\<close>

definition has_header :: "(string \<Rightarrow> bool) \<Rightarrow> endpoint \<Rightarrow> bool" where
  "has_header P e = (case ep_headers e of None \<Rightarrow> False | Some hs \<Rightarrow> list_ex P (map fst hs))"


section \<open>Equality up to the values under sensitive keys\<close>

text \<open>
  Two values differ only in what they store under sensitive keys: equal scalars, arrays
  of the same length, objects with the same keys in the same order; under a sensitive key
  the two values are arbitrary, everywhere else they are related again.
\<close>

fun low_eq :: "string list \<Rightarrow> 'n json \<Rightarrow> 'n json \<Rightarrow> bool"
  and low_eq_items :: "string list \<Rightarrow> 'n json list \<Rightarrow> 'n json list \<Rightarrow> bool"
  and low_eq_entries :: "string list \<Rightarrow> (string \<times> 'n json) list \<Rightarrow> (string \<times> 'n json) list \<Rightarrow> bool" where
  "low_eq ks (JArr xs) (JArr ys) = low_eq_items ks xs ys"
| "low_eq ks (JObj es) (JObj fs) = low_eq_entries ks es fs"
| "low_eq ks a b = (a = b)"
| "low_eq_items ks [] [] = True"
| "low_eq_items ks (x # xs) (y # ys) = (low_eq ks x y \<and> low_eq_items ks xs ys)"
| "low_eq_items ks xs ys = False"
| "low_eq_entries ks [] [] = True"
| "low_eq_entries ks ((k, v) # es) ((k', v') # fs) =
     (k = k' \<and> (is_sensitive ks k \<or> low_eq ks v v') \<and> low_eq_entries ks es fs)"
| "low_eq_entries ks es fs = False"

section \<open>Numeric strings in the words of the language standard\<close>

text \<open>
  The grammar \<^verbatim>\<open>StringNumericLiteral\<close> of the language standard, production by production,
  on the characters below 256. The conversion of a string to a number gives \<^verbatim>\<open>NaN\<close> exactly
  on the strings outside this grammar.
\<close>

definition DecimalDigits :: "string \<Rightarrow> bool" where
  "DecimalDigits s = (s \<noteq> [] \<and> list_all isDigit s)"

definition SignedInteger :: "string \<Rightarrow> bool" where
  "SignedInteger s =
     (\<exists>ds. DecimalDigits ds \<and> (s = ds \<or> s = CHR ''+'' # ds \<or> s = CHR ''-'' # ds))"

definition ExponentPart :: "string \<Rightarrow> bool" where
  "ExponentPart s = (\<exists>i. SignedInteger i \<and> (s = CHR ''e'' # i \<or> s = CHR ''E'' # i))"

definition StrUnsignedDecimalLiteral :: "string \<Rightarrow> bool" where
  "StrUnsignedDecimalLiteral s =
     (s = ''Infinity''
      \<or> (\<exists>a b e. s = a @ CHR ''.'' # b @ e \<and> DecimalDigits a
                   \<and> (b = [] \<or> DecimalDigits b) \<and> (e = [] \<or> ExponentPart e))
      \<or> (\<exists>b e. s = CHR ''.'' # b @ e \<and> DecimalDigits b \<and> (e = [] \<or> ExponentPart e))
      \<or> (\<exists>a e. s = a @ e \<and> DecimalDigits a \<and> (e = [] \<or> ExponentPart e)))"

definition StrDecimalLiteral :: "string \<Rightarrow> bool" where
  "StrDecimalLiteral s =
     (\<exists>u. StrUnsignedDecimalLiteral u \<and> (s = u \<or> s = CHR ''+'' # u \<or> s = CHR ''-'' # u))"

definition NonDecimalIntegerLiteral :: "string \<Rightarrow> bool" where
  "NonDecimalIntegerLiteral s =
     (\<exists>ds. ds \<noteq> [] \<and>
        (((s = ''0b'' @ ds \<or> s = ''0B'' @ ds) \<and> list_all (\<lambda>c. c \<in> set ''01'') ds)
         \<or> ((s = ''0o'' @ ds \<or> s = ''0O'' @ ds) \<and> list_all (\<lambda>c. c \<in> set ''01234567'') ds)
         \<or> ((s = ''0x'' @ ds \<or> s = ''0X'' @ ds) \<and> list_all isHex ds)))"

definition StrNumericLiteral :: "string \<Rightarrow> bool" where
  "StrNumericLiteral s = (StrDecimalLiteral s \<or> NonDecimalIntegerLiteral s)"

text \<open>
  \<^verbatim>\<open>WhiteSpace\<close> is tab, vertical tab, form feed, space and the no-break space (the byte
  order mark and the other space separators lie above 255); \<^verbatim>\<open>LineTerminator\<close> is line
  feed and carriage return (the line and paragraph separators lie above 255).
\<close>

definition WhiteSpace :: "char \<Rightarrow> bool" where
  "WhiteSpace c = (c \<in> set [CHR 0x09, CHR 0x0B, CHR 0x0C, CHR 0x20, CHR 0xA0])"

definition LineTerminator :: "char \<Rightarrow> bool" where
  "LineTerminator c = (c \<in> set [CHR 0x0A, CHR 0x0D])"

definition StrWhiteSpaceChar :: "char \<Rightarrow> bool" where
  "StrWhiteSpaceChar c = (WhiteSpace c \<or> LineTerminator c)"

text \<open>White space alone, or a numeric literal with optional white space on both sides.\<close>

definition StringNumericLiteral :: "string \<Rightarrow> bool" where
  "StringNumericLiteral s =
     (list_all StrWhiteSpaceChar s
      \<or> (\<exists>l n r. s = l @ n @ r \<and> list_all StrWhiteSpaceChar l \<and> StrNumericLiteral n
                   \<and> list_all StrWhiteSpaceChar r))"

section \<open>Example observations\<close>

text \<open>What the platform's parser answers on the URLs of the examples; it throws on every other string.\<close>

definition example_urls :: url_parser where
  "example_urls s =
     map_of
       [(''https://api.x.com/users/42'',
           \<lparr>url_protocol = ''https:'', url_hostname = ''api.x.com'',
            url_origin = ''https://api.x.com'', url_pathname = ''/users/42''\<rparr>),
        (''https://api.x.com/users/43'',
           \<lparr>url_protocol = ''https:'', url_hostname = ''api.x.com'',
            url_origin = ''https://api.x.com'', url_pathname = ''/users/43''\<rparr>),
        (''https://api.x.com/users'',
           \<lparr>url_protocol = ''https:'', url_hostname = ''api.x.com'',
            url_origin = ''https://api.x.com'', url_pathname = ''/users''\<rparr>),
        (''https://api.x.com:8443/users'',
           \<lparr>url_protocol = ''https:'', url_hostname = ''api.x.com'',
            url_origin = ''https://api.x.com:8443'', url_pathname = ''/users''\<rparr>),
        (''https://cdn.x.com/assets'',
           \<lparr>url_protocol = ''https:'', url_hostname = ''cdn.x.com'',
            url_origin = ''https://cdn.x.com'', url_pathname = ''/assets''\<rparr>)] s"

text \<open>An observation with a JSON response, no query and no recorded headers.\<close>

definition observation :: "string \<Rightarrow> string \<Rightarrow> string \<Rightarrow> nat \<Rightarrow> endpoint" where
  "observation u m p s =
     \<lparr>ep_url = u, ep_method = m, ep_status = Some s, ep_contentType = Some ''application/json'',
      ep_pathname = p, ep_searchParams = None, ep_headers = None\<rparr>"

text \<open>The same observation with recorded request headers.\<close>

definition with_headers :: "endpoint \<Rightarrow> (string \<times> string) list \<Rightarrow> endpoint" where
  "with_headers e hs = e\<lparr>ep_headers := Some hs\<rparr>"

definition no_options :: options where
  "no_options = \<lparr>o_title = None, o_version = None, o_description = None, o_contact = None,
                  o_license = None, o_sourceUrl = None\<rparr>"


section \<open>Templating\<close>

text \<open>A path is what stands before its first slash, and then its segments, each behind a slash.\<close>

definition flat :: "string list \<Rightarrow> string" where
  "flat segs = concat (map ((#) (CHR ''/'')) segs)"

lemma flat_simps [simp]: "flat [] = []" "flat (s # ss) = CHR ''/'' # s @ flat ss"
  by (simp_all add: flat_def)

lemma lookahead_flat [simp]: "lookahead_end (flat segs)"
  by (cases segs) (simp_all add: lookahead_end_def)

lemma split_on_nonempty [simp]: "split_on d s \<noteq> []"
  by (induction s) (auto split: list.splits)

lemma split_on_decomp:
  "split_on (CHR ''/'') p = s0 # segs \<Longrightarrow>
     p = s0 @ flat segs \<and> CHR ''/'' \<notin> set s0 \<and> (\<forall>s \<in> set segs. CHR ''/'' \<notin> set s)"
proof (induction p arbitrary: s0 segs)
  case Nil
  then show ?case by simp
next
  case (Cons c cs)
  show ?case
  proof (cases "c = CHR ''/''")
    case True
    with Cons.prems obtain t0 ts where "split_on (CHR ''/'') cs = t0 # ts" "s0 = []" "segs = t0 # ts"
      by (cases "split_on (CHR ''/'') cs") auto
    with Cons.IH[of t0 ts] True show ?thesis by auto
  next
    case False
    with Cons.prems obtain t0 where "split_on (CHR ''/'') cs = t0 # segs" "s0 = c # t0"
      by (cases "split_on (CHR ''/'') cs") auto
    with Cons.IH[of t0 segs] False show ?thesis by auto
  qed
qed

lemma join_slash_flat: "join_slash (s0 # segs) = s0 @ flat segs"
  by (induction segs arbitrary: s0) auto

lemma replace_all_skip:
  assumes M1: "\<And>c cs. c \<noteq> CHR ''/'' \<Longrightarrow> m (c # cs) = None"
  shows "CHR ''/'' \<notin> set u \<Longrightarrow> replace_all m r (u @ rest) = u @ replace_all m r rest"
proof (induction u)
  case Nil
  then show ?case by simp
next
  case (Cons c u)
  have "m (c # u @ rest) = None"
    using M1[of c "u @ rest"] Cons.prems by auto
  with Cons show ?case by simp
qed

lemma replace_all_flat:
  assumes M1: "\<And>c cs. c \<noteq> CHR ''/'' \<Longrightarrow> m (c # cs) = None"
    and M2: "\<And>seg rest. CHR ''/'' \<notin> set seg \<Longrightarrow> lookahead_end rest \<Longrightarrow>
               m (CHR ''/'' # seg @ rest) = (if P seg then Some (Suc (length seg)) else None)"
  shows "(\<forall>s \<in> set segs. CHR ''/'' \<notin> set s) \<Longrightarrow>
         replace_all m (CHR ''/'' # r) (flat segs) = flat (map (\<lambda>seg. if P seg then r else seg) segs)"
proof (induction segs)
  case Nil
  then show ?case by simp
next
  case (Cons seg segs)
  have nos: "CHR ''/'' \<notin> set seg" using Cons.prems by simp
  have m: "m (CHR ''/'' # seg @ flat segs) = (if P seg then Some (Suc (length seg)) else None)"
    using M2[OF nos lookahead_flat] .
  show ?case
  proof (cases "P seg")
    case True
    with m Cons show ?thesis by simp
  next
    case False
    with m Cons replace_all_skip[of m seg "CHR ''/'' # r" "flat segs", OF M1 nos] show ?thesis by simp
  qed
qed


lemma takeWhile_seg:
  "CHR ''/'' \<notin> set u \<Longrightarrow> lookahead_end r \<Longrightarrow> takeWhile (\<lambda>c. c \<noteq> CHR ''/'') (u @ r) = u"
  by (induction u) (auto simp: lookahead_end_def split: list.splits)

lemma seg_unique:
  assumes "u @ r = v @ t" "CHR ''/'' \<notin> set u" "CHR ''/'' \<notin> set v" "lookahead_end r" "lookahead_end t"
  shows "u = v \<and> r = t"
proof -
  have "takeWhile (\<lambda>c. c \<noteq> CHR ''/'') (u @ r) = u" using assms(2,4) by (rule takeWhile_seg)
  moreover have "takeWhile (\<lambda>c. c \<noteq> CHR ''/'') (v @ t) = v" using assms(3,5) by (rule takeWhile_seg)
  ultimately have "u = v" using assms(1) by simp
  with assms(1) show ?thesis by simp
qed

lemma not_slash_digit: "isDigit c \<Longrightarrow> c \<noteq> CHR ''/''"
  by (auto simp: isDigit_def)

lemma not_slash_hex: "isHex c \<Longrightarrow> c \<noteq> CHR ''/''"
  by (auto simp: isHex_def)

lemma not_slash_dash: "isDash c \<Longrightarrow> c \<noteq> CHR ''/''"
  by (auto simp: isDash_def)

lemma eat_Some:
  "eat P n s = Some r \<longleftrightarrow> (\<exists>u. s = u @ r \<and> length u = n \<and> list_all P u)"
proof (induction P n s rule: eat.induct)
  case (1 P s)
  then show ?case by auto
next
  case (2 P n)
  then show ?case by auto
next
  case (3 P n c cs)
  show ?case
  proof
    assume "eat P (Suc n) (c # cs) = Some r"
    then have "P c" "eat P n cs = Some r" by (auto split: if_splits)
    with 3 obtain u where "cs = u @ r" "length u = n" "list_all P u" by auto
    with \<open>P c\<close> have "c # cs = (c # u) @ r \<and> length (c # u) = Suc n \<and> list_all P (c # u)" by simp
    then show "\<exists>u. c # cs = u @ r \<and> length u = Suc n \<and> list_all P u" by blast
  next
    assume "\<exists>u. c # cs = u @ r \<and> length u = Suc n \<and> list_all P u"
    then obtain u where u: "c # cs = u @ r" "length u = Suc n" "list_all P u" by blast
    then obtain u' where "u = c # u'" by (cases u) auto
    with u 3 show "eat P (Suc n) (c # cs) = Some r" by auto
  qed
qed

definition slash_free :: "((char \<Rightarrow> bool) \<times> nat) list \<Rightarrow> bool" where
  "slash_free ps = list_all (\<lambda>(P, n). \<not> P (CHR ''/'')) ps"

lemma eat_seq_Some:
  "slash_free ps \<Longrightarrow> eat_seq ps s = Some r \<longleftrightarrow>
     (\<exists>u. s = u @ r \<and> eat_seq ps u = Some [] \<and> CHR ''/'' \<notin> set u)"
proof (induction ps arbitrary: s)
  case Nil
  then show ?case by auto
next
  case (Cons a ps)
  obtain P n where a: "a = (P, n)" by (cases a)
  from Cons.prems a have sf: "slash_free ps" and nP: "\<not> P (CHR ''/'')" by (simp_all add: slash_free_def)
  note IH = Cons.IH[OF sf]
  show ?case
  proof
    assume "eat_seq (a # ps) s = Some r"
    then obtain s1 where s1: "eat P n s = Some s1" "eat_seq ps s1 = Some r"
      by (auto simp: a split: option.splits)
    from s1(1) obtain u1 where u1: "s = u1 @ s1" "length u1 = n" "list_all P u1"
      by (auto simp: eat_Some)
    from s1(2) IH[of s1] obtain u2 where u2: "s1 = u2 @ r" "eat_seq ps u2 = Some []" "CHR ''/'' \<notin> set u2"
      by auto
    have "eat P n (u1 @ u2) = Some u2" using u1 by (auto simp: eat_Some)
    then have "eat_seq (a # ps) (u1 @ u2) = Some []" using u2 by (simp add: a)
    moreover have "CHR ''/'' \<notin> set (u1 @ u2)" using u1(3) u2(3) nP by (auto simp: list_all_iff)
    moreover have "s = (u1 @ u2) @ r" using u1 u2 by simp
    ultimately show "\<exists>u. s = u @ r \<and> eat_seq (a # ps) u = Some [] \<and> CHR ''/'' \<notin> set u" by blast
  next
    assume "\<exists>u. s = u @ r \<and> eat_seq (a # ps) u = Some [] \<and> CHR ''/'' \<notin> set u"
    then obtain u where u: "s = u @ r" "eat_seq (a # ps) u = Some []" "CHR ''/'' \<notin> set u" by blast
    then obtain s1 where s1: "eat P n u = Some s1" "eat_seq ps s1 = Some []"
      by (auto simp: a split: option.splits)
    from s1(1) obtain u1 where u1: "u = u1 @ s1" "length u1 = n" "list_all P u1"
      by (auto simp: eat_Some)
    have "eat P n s = Some (s1 @ r)" using u1 u by (auto simp: eat_Some)
    moreover have "CHR ''/'' \<notin> set s1" using u(3) u1(1) by simp
    then have "eat_seq ps (s1 @ r) = Some r" using IH[of "s1 @ r"] s1(2) by auto
    ultimately show "eat_seq (a # ps) s = Some r" by (simp add: a)
  qed
qed

lemma match_fixed_not_slash: "c \<noteq> CHR ''/'' \<Longrightarrow> match_fixed ps (c # cs) = None"
  by (simp add: match_fixed_def)

lemma match_fixed_seg:
  assumes sf: "slash_free ps" and seg: "CHR ''/'' \<notin> set seg" and la: "lookahead_end rest"
  shows "match_fixed ps (CHR ''/'' # seg @ rest) =
           (if eat_seq ps seg = Some [] then Some (Suc (length seg)) else None)"
proof (cases "eat_seq ps seg = Some []")
  case True
  then have "eat_seq ps (seg @ rest) = Some rest"
    using eat_seq_Some[OF sf, of "seg @ rest" rest] seg by auto
  with True la show ?thesis by (simp add: match_fixed_def)
next
  case False
  have "\<not> (\<exists>r. eat_seq ps (seg @ rest) = Some r \<and> lookahead_end r)"
  proof
    assume "\<exists>r. eat_seq ps (seg @ rest) = Some r \<and> lookahead_end r"
    then obtain r where r: "eat_seq ps (seg @ rest) = Some r" "lookahead_end r" by blast
    then obtain u where u: "seg @ rest = u @ r" "eat_seq ps u = Some []" "CHR ''/'' \<notin> set u"
      using eat_seq_Some[OF sf, of "seg @ rest" r] by auto
    from seg_unique[OF u(1) seg u(3) la r(2)] u(2) False show False by simp
  qed
  with False show ?thesis by (auto simp: match_fixed_def split: option.splits)
qed

lemma match_numeric_not_slash: "c \<noteq> CHR ''/'' \<Longrightarrow> match_numeric (c # cs) = None"
  by (simp add: match_numeric_def)

lemma takeWhile_digit_seg:
  assumes "CHR ''/'' \<notin> set seg" "lookahead_end rest"
  shows "takeWhile isDigit (seg @ rest) = takeWhile isDigit seg"
    and "dropWhile isDigit (seg @ rest) = dropWhile isDigit seg @ rest"
proof -
  have "rest = [] \<or> (\<exists>t. rest = CHR ''/'' # t)"
    using assms(2) by (cases rest) (auto simp: lookahead_end_def)
  then have a: "takeWhile isDigit rest = []" "dropWhile isDigit rest = rest"
    by (auto simp: isDigit_def)
  show "takeWhile isDigit (seg @ rest) = takeWhile isDigit seg"
    using a by (induction seg) auto
  show "dropWhile isDigit (seg @ rest) = dropWhile isDigit seg @ rest"
    using a by (induction seg) auto
qed

lemma match_numeric_seg:
  assumes seg: "CHR ''/'' \<notin> set seg" and la: "lookahead_end rest"
  shows "match_numeric (CHR ''/'' # seg @ rest) =
           (if is_numeric seg then Some (Suc (length seg)) else None)"
proof (cases "list_all isDigit seg")
  case True
  then have tw: "takeWhile isDigit seg = seg" and dw: "dropWhile isDigit seg = []"
    by (simp_all add: list_all_iff takeWhile_eq_all_conv)
  show ?thesis
    by (simp add: match_numeric_def is_numeric_def takeWhile_digit_seg[OF seg la] tw dw True la)
next
  case False
  then have ne: "dropWhile isDigit seg \<noteq> []" by (auto simp: list_all_iff)
  then have "hd (dropWhile isDigit seg) \<in> set seg"
    by (metis hd_in_set set_dropWhileD)
  with seg have "hd (dropWhile isDigit seg) \<noteq> CHR ''/''" by auto
  with ne have "\<not> lookahead_end (dropWhile isDigit seg @ rest)"
    by (cases "dropWhile isDigit seg") (auto simp: lookahead_end_def)
  with False show ?thesis
    by (auto simp: match_numeric_def is_numeric_def takeWhile_digit_seg[OF seg la])
qed

lemma slash_free_shapes: "slash_free uuid_shape" "slash_free objectid_shape"
  by (simp_all add: slash_free_def uuid_shape_def objectid_shape_def isHex_def isDash_def)

lemma pass_numeric:
  "(\<forall>s \<in> set segs. CHR ''/'' \<notin> set s) \<Longrightarrow>
     replace_all match_numeric ''/{id}'' (flat segs) =
       flat (map (\<lambda>seg. if is_numeric seg then ''{id}'' else seg) segs)"
  using replace_all_flat[of match_numeric is_numeric segs "''{id}''"]
  by (simp add: match_numeric_not_slash match_numeric_seg)

lemma pass_uuid:
  "(\<forall>s \<in> set segs. CHR ''/'' \<notin> set s) \<Longrightarrow>
     replace_all (match_fixed uuid_shape) ''/{uuid}'' (flat segs) =
       flat (map (\<lambda>seg. if is_uuid seg then ''{uuid}'' else seg) segs)"
  using replace_all_flat[of "match_fixed uuid_shape" is_uuid segs "''{uuid}''"]
  by (simp add: match_fixed_not_slash match_fixed_seg slash_free_shapes is_uuid_def)

lemma pass_objectid:
  "(\<forall>s \<in> set segs. CHR ''/'' \<notin> set s) \<Longrightarrow>
     replace_all (match_fixed objectid_shape) ''/{objectId}'' (flat segs) =
       flat (map (\<lambda>seg. if is_objectid seg then ''{objectId}'' else seg) segs)"
  using replace_all_flat[of "match_fixed objectid_shape" is_objectid segs "''{objectId}''"]
  by (simp add: match_fixed_not_slash match_fixed_seg slash_free_shapes is_objectid_def)

lemma placeholders_literal:
  "\<not> is_uuid ''{id}''" "\<not> is_objectid ''{id}''" "\<not> is_objectid ''{uuid}''"
  by (simp_all add: is_uuid_def is_objectid_def uuid_shape_def objectid_shape_def isHex_def eval_nat_numeral)


lemma normalizePath_flat:
  assumes "\<forall>s \<in> set segs. CHR ''/'' \<notin> set s" and "CHR ''/'' \<notin> set s0"
  shows "normalizePath (s0 @ flat segs) = s0 @ flat (map template_segment segs)"
proof -
  let ?f1 = "\<lambda>seg. if is_numeric seg then ''{id}'' else seg"
  let ?f2 = "\<lambda>seg. if is_uuid seg then ''{uuid}'' else seg"
  let ?f3 = "\<lambda>seg. if is_objectid seg then ''{objectId}'' else seg"
  have s1: "\<forall>s \<in> set (map ?f1 segs). CHR ''/'' \<notin> set s"
    using assms(1) by auto
  have s2: "\<forall>s \<in> set (map ?f2 (map ?f1 segs)). CHR ''/'' \<notin> set s"
    using s1 by auto
  have p1: "replace_all match_numeric ''/{id}'' (s0 @ flat segs) = s0 @ flat (map ?f1 segs)"
    using replace_all_skip[of match_numeric s0 "''/{id}''" "flat segs"] assms
    by (simp add: match_numeric_not_slash pass_numeric)
  have p2: "replace_all (match_fixed uuid_shape) ''/{uuid}'' (s0 @ flat (map ?f1 segs))
              = s0 @ flat (map ?f2 (map ?f1 segs))"
    using replace_all_skip[of "match_fixed uuid_shape" s0 "''/{uuid}''" "flat (map ?f1 segs)"] assms(2)
      pass_uuid[OF s1]
    by (simp add: match_fixed_not_slash)
  have p3: "replace_all (match_fixed objectid_shape) ''/{objectId}'' (s0 @ flat (map ?f2 (map ?f1 segs)))
              = s0 @ flat (map ?f3 (map ?f2 (map ?f1 segs)))"
    using replace_all_skip[of "match_fixed objectid_shape" s0 "''/{objectId}''" "flat (map ?f2 (map ?f1 segs))"] assms(2)
      pass_objectid[OF s2]
    by (simp add: match_fixed_not_slash)
  have "map ?f3 (map ?f2 (map ?f1 segs)) = map template_segment segs"
    by (simp add: template_segment_def placeholders_literal)
  then show ?thesis
    unfolding normalizePath_def Let_def p1 p2 p3 by (rule arg_cong)
qed

lemma case_opt_Some:
  "((case x of None \<Rightarrow> None | Some r \<Rightarrow> f r) = Some y) = (\<exists>r. x = Some r \<and> f r = Some y)"
  by (cases x) auto

lemma eat_exact: "eat P n s = Some [] \<longleftrightarrow> length s = n \<and> list_all P s"
  by (auto simp: eat_Some)

lemma is_objectid_iff: "is_objectid s \<longleftrightarrow> length s = 24 \<and> list_all isHex s"
  by (simp add: is_objectid_def objectid_shape_def case_opt_Some eat_exact)

lemma dash_prefix:
  "(\<exists>u. r = u @ t \<and> length u = Suc 0 \<and> list_all isDash u) \<longleftrightarrow> r = CHR ''-'' # t"
  by (auto simp: length_Suc_conv isDash_def)

lemma is_uuid_iff:
  "is_uuid s \<longleftrightarrow>
     (\<exists>a b c d e. s = a @ ''-'' @ b @ ''-'' @ c @ ''-'' @ d @ ''-'' @ e
        \<and> length a = 8 \<and> length b = 4 \<and> length c = 4 \<and> length d = 4 \<and> length e = 12
        \<and> list_all isHex a \<and> list_all isHex b \<and> list_all isHex c \<and> list_all isHex d \<and> list_all isHex e)"
  unfolding is_uuid_def uuid_shape_def
  by (simp add: case_opt_Some eat_Some eat_exact dash_prefix) blast

section \<open>Sets in insertion order\<close>

lemma set_add_set [simp]: "set (set_add xs x) = insert x (set xs)"
  by (auto simp: set_add_def)

lemma set_add_distinct [simp]: "distinct xs \<Longrightarrow> distinct (set_add xs x)"
  by (auto simp: set_add_def)

lemma foldl_set_add_set: "set (foldl set_add acc xs) = set acc \<union> set xs"
  by (induction xs arbitrary: acc) auto

lemma foldl_set_add_distinct: "distinct acc \<Longrightarrow> distinct (foldl set_add acc xs)"
  by (induction xs arbitrary: acc) auto

lemma foldl_set_add_prefix: "\<exists>ys. foldl set_add acc xs = acc @ ys"
proof (induction xs arbitrary: acc)
  case Nil
  then show ?case by simp
next
  case (Cons x xs)
  obtain zs where zs: "set_add acc x = acc @ zs"
    by (cases "x \<in> set acc") (simp_all add: set_add_def)
  obtain ys where "foldl set_add (set_add acc x) xs = set_add acc x @ ys"
    using Cons[of "set_add acc x"] by blast
  then have "foldl set_add acc (x # xs) = acc @ (zs @ ys)" using zs by simp
  then show ?case by blast
qed

lemma new_Set_set [simp]: "set (new_Set xs) = set xs"
  by (simp add: new_Set_def foldl_set_add_set)

lemma new_Set_distinct [simp]: "distinct (new_Set xs)"
  by (simp add: new_Set_def foldl_set_add_distinct)

lemma new_Set_first: "xs \<noteq> [] \<Longrightarrow> new_Set xs ! 0 = hd xs"
proof -
  assume "xs \<noteq> []"
  then obtain x t where xs: "xs = x # t" by (cases xs) auto
  obtain ys where "foldl set_add [x] t = [x] @ ys" using foldl_set_add_prefix by blast
  then show ?thesis by (simp add: xs new_Set_def set_add_def)
qed

lemma new_Set_length: "length (new_Set xs) = card (set xs)"
  by (metis distinct_card new_Set_distinct new_Set_set)

section \<open>Parameter type inference\<close>

lemma infer_loop:
  "foldl (\<lambda>(types, uniqueValues) sample. (set_add types (f sample), set_add uniqueValues sample)) (a, b) xs
     = (foldl set_add a (map f xs), foldl set_add b xs)"
  by (induction xs arbitrary: a b) simp_all

lemma card_image_one:
  assumes "xs \<noteq> []"
  shows "card (f ` set xs) = 1 \<longleftrightarrow> (\<forall>s \<in> set xs. f s = f (hd xs))"
proof
  assume "card (f ` set xs) = 1"
  then obtain t where t: "f ` set xs = {t}" using card_1_singletonE by blast
  have "\<And>s. s \<in> set xs \<Longrightarrow> f s = t" using t by blast
  moreover have "hd xs \<in> set xs" using assms by simp
  ultimately show "\<forall>s \<in> set xs. f s = f (hd xs)" by metis
next
  assume a: "\<forall>s \<in> set xs. f s = f (hd xs)"
  have "hd xs \<in> set xs" using assms by simp
  with a have "f ` set xs = {f (hd xs)}" by blast
  then show "card (f ` set xs) = 1" by simp
qed

subsection \<open>\<^verbatim>\<open>isNaN\<close> against the grammar of numeric strings\<close>

lemma digit_not_white: "isDigit c \<Longrightarrow> \<not> isWhite c"
  by (auto simp: isDigit_def isWhite_def)

lemma hex_not_white: "isHex c \<Longrightarrow> \<not> isWhite c"
  by (auto simp: isHex_def isWhite_def)

lemma digit_not_mark:
  "isDigit c \<Longrightarrow> c \<noteq> CHR ''.'' \<and> c \<noteq> CHR ''e'' \<and> c \<noteq> CHR ''E'' \<and> c \<noteq> CHR ''+'' \<and> c \<noteq> CHR ''-''"
  by (auto simp: isDigit_def)

lemma digits_split:
  assumes "list_all isDigit a" and "e = [] \<or> \<not> isDigit (hd e)"
  shows "takeWhile isDigit (a @ e) = a" and "dropWhile isDigit (a @ e) = e"
proof -
  have a: "\<And>x. x \<in> set a \<Longrightarrow> isDigit x" using assms(1) by (simp add: list_all_iff)
  have t: "takeWhile isDigit e = []" using assms(2) by (cases e) auto
  have d: "dropWhile isDigit e = e" using assms(2) by (cases e) auto
  show "takeWhile isDigit (a @ e) = a" using a t by (simp add: takeWhile_append2)
  show "dropWhile isDigit (a @ e) = e" using a d by (simp add: dropWhile_append2)
qed

lemma DecimalDigits_is_numeric: "DecimalDigits s = is_numeric s"
  by (simp add: DecimalDigits_def is_numeric_def)

lemma SignedInteger_iff: "SignedInteger r = is_numeric (strip_sign r)"
proof
  assume "SignedInteger r"
  then obtain ds where ds: "is_numeric ds" and r: "r = ds \<or> r = CHR ''+'' # ds \<or> r = CHR ''-'' # ds"
    by (auto simp: SignedInteger_def DecimalDigits_is_numeric)
  from ds obtain c cs where c: "ds = c # cs" "isDigit c"
    by (cases ds) (auto simp: is_numeric_def)
  have "strip_sign ds = ds" using c digit_not_mark[of c] by (simp add: strip_sign_def)
  with r ds show "is_numeric (strip_sign r)" by (auto simp: strip_sign_def)
next
  assume n: "is_numeric (strip_sign r)"
  show "SignedInteger r"
  proof (cases r)
    case Nil
    with n show ?thesis by (simp add: strip_sign_def is_numeric_def)
  next
    case (Cons c cs)
    show ?thesis
    proof (cases "c = CHR ''+'' \<or> c = CHR ''-''")
      case True
      with n Cons have "is_numeric cs" by (auto simp: strip_sign_def)
      with True Cons show ?thesis
        unfolding SignedInteger_def DecimalDigits_is_numeric by blast
    next
      case False
      with n Cons have "is_numeric r" by (simp add: strip_sign_def)
      then show ?thesis unfolding SignedInteger_def DecimalDigits_is_numeric by blast
    qed
  qed
qed

lemma ExponentPart_iff: "ExponentPart e = exponent_part e"
  by (cases e) (auto simp: ExponentPart_def exponent_part_def SignedInteger_iff)

lemma exponent_head: "exponent_part e \<Longrightarrow> e \<noteq> [] \<and> \<not> isDigit (hd e) \<and> hd e \<noteq> CHR ''.''"
  by (cases e) (auto simp: exponent_part_def isDigit_def)

lemma opt_exponent_head:
  "e = [] \<or> exponent_part e \<Longrightarrow> e = [] \<or> \<not> isDigit (hd e)"
  using exponent_head by blast

lemma unsigned_of_fraction:
  assumes a: "list_all isDigit a" and b: "list_all isDigit b"
    and ne: "a \<noteq> [] \<or> b \<noteq> []" and e: "e = [] \<or> exponent_part e"
  shows "unsigned_decimal (a @ CHR ''.'' # b @ e)"
proof -
  have h: "CHR ''.'' # b @ e = [] \<or> \<not> isDigit (hd (CHR ''.'' # b @ e))"
    by (simp add: isDigit_def)
  have t1: "takeWhile isDigit (a @ CHR ''.'' # b @ e) = a"
    and d1: "dropWhile isDigit (a @ CHR ''.'' # b @ e) = CHR ''.'' # b @ e"
    using digits_split[OF a h] by simp_all
  have t2: "takeWhile isDigit (b @ e) = b" and d2: "dropWhile isDigit (b @ e) = e"
    using digits_split[OF b opt_exponent_head[OF e]] by simp_all
  have "unsigned_decimal (a @ CHR ''.'' # b @ e)
        = (a @ CHR ''.'' # b @ e = ''Infinity'' \<or> ((a \<noteq> [] \<or> b \<noteq> []) \<and> (e = [] \<or> exponent_part e)))"
    unfolding unsigned_decimal_def Let_def t1 d1 by (simp only: list.case simp_thms if_True t2 d2)
  then show ?thesis using ne e by blast
qed

lemma unsigned_of_integer:
  assumes a: "list_all isDigit a" and ne: "a \<noteq> []" and e: "e = [] \<or> exponent_part e"
  shows "unsigned_decimal (a @ e)"
proof -
  have t1: "takeWhile isDigit (a @ e) = a" and d1: "dropWhile isDigit (a @ e) = e"
    using digits_split[OF a opt_exponent_head[OF e]] by simp_all
  show ?thesis
  proof (cases e)
    case Nil
    then show ?thesis unfolding unsigned_decimal_def Let_def t1 d1 using ne by simp
  next
    case (Cons c r)
    with e have x: "exponent_part e" by simp
    then have "c \<noteq> CHR ''.''" using exponent_head[OF x] Cons by simp
    then show ?thesis unfolding unsigned_decimal_def Let_def t1 d1 using ne x Cons by simp
  qed
qed

lemma StrUnsignedDecimalLiteral_iff: "StrUnsignedDecimalLiteral s = unsigned_decimal s"
proof
  assume "StrUnsignedDecimalLiteral s"
  then consider "s = ''Infinity''"
    | a b e where "s = a @ CHR ''.'' # b @ e" "DecimalDigits a" "b = [] \<or> DecimalDigits b" "e = [] \<or> ExponentPart e"
    | b e where "s = CHR ''.'' # b @ e" "DecimalDigits b" "e = [] \<or> ExponentPart e"
    | a e where "s = a @ e" "DecimalDigits a" "e = [] \<or> ExponentPart e"
    unfolding StrUnsignedDecimalLiteral_def by blast
  then show "unsigned_decimal s"
  proof cases
    case 1
    then show ?thesis by (simp add: unsigned_decimal_def)
  next
    case (2 a b e)
    have "list_all isDigit a" "a \<noteq> []" using 2(2) by (simp_all add: DecimalDigits_def)
    moreover have "list_all isDigit b" using 2(3) by (auto simp: DecimalDigits_def)
    moreover have "e = [] \<or> exponent_part e" using 2(4) by (simp add: ExponentPart_iff)
    ultimately show ?thesis unfolding 2(1) by (intro unsigned_of_fraction) simp_all
  next
    case (3 b e)
    have "list_all isDigit b" "b \<noteq> []" using 3(2) by (simp_all add: DecimalDigits_def)
    moreover have "e = [] \<or> exponent_part e" using 3(3) by (simp add: ExponentPart_iff)
    ultimately have "unsigned_decimal ([] @ CHR ''.'' # b @ e)"
      by (intro unsigned_of_fraction) simp_all
    then show ?thesis unfolding 3(1) by simp
  next
    case (4 a e)
    have "list_all isDigit a" "a \<noteq> []" using 4(2) by (simp_all add: DecimalDigits_def)
    moreover have "e = [] \<or> exponent_part e" using 4(3) by (simp add: ExponentPart_iff)
    ultimately show ?thesis unfolding 4(1) by (intro unsigned_of_integer) simp_all
  qed
next
  assume u: "unsigned_decimal s"
  define ds where "ds = takeWhile isDigit s"
  define r where "r = dropWhile isDigit s"
  have s: "s = ds @ r" by (simp add: ds_def r_def)
  have dd: "list_all isDigit ds" by (simp add: ds_def list_all_iff) (meson set_takeWhileD)
  show "StrUnsignedDecimalLiteral s"
  proof (cases "s = ''Infinity''")
    case True
    then show ?thesis by (simp add: StrUnsignedDecimalLiteral_def)
  next
    case False
    show ?thesis
    proof (cases r)
      case Nil
      with u False have "ds \<noteq> []"
        by (simp add: unsigned_decimal_def Let_def ds_def[symmetric] r_def[symmetric])
      with dd have "DecimalDigits ds" by (simp add: DecimalDigits_def)
      moreover have "s = ds @ []" using s Nil by simp
      ultimately show ?thesis unfolding StrUnsignedDecimalLiteral_def by blast
    next
      case (Cons c r2)
      show ?thesis
      proof (cases "c = CHR ''.''")
        case True
        define fs where "fs = takeWhile isDigit r2"
        define r3 where "r3 = dropWhile isDigit r2"
        have r2: "r2 = fs @ r3" by (simp add: fs_def r3_def)
        have fd: "list_all isDigit fs" by (simp add: fs_def list_all_iff) (meson set_takeWhileD)
        have "s = ''Infinity'' \<or> ((ds \<noteq> [] \<or> fs \<noteq> []) \<and> (r3 = [] \<or> exponent_part r3))"
          using u unfolding unsigned_decimal_def Let_def ds_def[symmetric] r_def[symmetric] Cons True
            fs_def r3_def by (simp only: list.case simp_thms if_True)
        with False have c: "(ds \<noteq> [] \<or> fs \<noteq> []) \<and> (r3 = [] \<or> exponent_part r3)"
          by blast
        have e: "r3 = [] \<or> ExponentPart r3" using c by (simp add: ExponentPart_iff)
        have eq: "s = ds @ CHR ''.'' # fs @ r3" using s Cons True r2 by simp
        show ?thesis
        proof (cases "ds = []")
          case True
          with c have "DecimalDigits fs" using fd by (simp add: DecimalDigits_def)
          moreover have "s = CHR ''.'' # fs @ r3" using eq True by simp
          ultimately show ?thesis unfolding StrUnsignedDecimalLiteral_def using e by blast
        next
          case False
          then have "DecimalDigits ds" using dd by (simp add: DecimalDigits_def)
          moreover have "fs = [] \<or> DecimalDigits fs" using fd by (auto simp: DecimalDigits_def)
          ultimately show ?thesis unfolding StrUnsignedDecimalLiteral_def using e eq by blast
        qed
      next
        case nd: False
        from u False Cons nd have c: "ds \<noteq> [] \<and> exponent_part r"
          by (simp add: unsigned_decimal_def Let_def ds_def[symmetric] r_def[symmetric])
        have "DecimalDigits ds" using c dd by (simp add: DecimalDigits_def)
        moreover have "r = [] \<or> ExponentPart r" using c by (simp add: ExponentPart_iff)
        ultimately show ?thesis unfolding StrUnsignedDecimalLiteral_def using s by blast
      qed
    qed
  qed
qed

lemma unsigned_head:
  "unsigned_decimal u \<Longrightarrow> u \<noteq> [] \<and> hd u \<noteq> CHR ''+'' \<and> hd u \<noteq> CHR ''-''"
proof -
  assume "unsigned_decimal u"
  then have "StrUnsignedDecimalLiteral u" by (simp add: StrUnsignedDecimalLiteral_iff)
  then consider "u = ''Infinity''"
    | a r where "u = a @ r" "DecimalDigits a"
    | r where "u = CHR ''.'' # r"
    unfolding StrUnsignedDecimalLiteral_def by blast
  then show ?thesis
  proof cases
    case 1
    then show ?thesis by simp
  next
    case (2 a r)
    from 2(2) obtain c cs where c: "a = c # cs" "isDigit c"
      by (cases a) (auto simp: DecimalDigits_def)
    then show ?thesis using 2(1) digit_not_mark[of c] by simp
  next
    case (3 r)
    then show ?thesis by simp
  qed
qed

lemma StrDecimalLiteral_iff: "StrDecimalLiteral t = unsigned_decimal (strip_sign t)"
proof
  assume "StrDecimalLiteral t"
  then obtain u where u: "unsigned_decimal u" and t: "t = u \<or> t = CHR ''+'' # u \<or> t = CHR ''-'' # u"
    by (auto simp: StrDecimalLiteral_def StrUnsignedDecimalLiteral_iff)
  from unsigned_head[OF u] obtain c cs where c: "u = c # cs" "c \<noteq> CHR ''+''" "c \<noteq> CHR ''-''"
    by (cases u) auto
  then have "strip_sign u = u" by (simp add: strip_sign_def)
  with t u show "unsigned_decimal (strip_sign t)" by (auto simp: strip_sign_def)
next
  assume n: "unsigned_decimal (strip_sign t)"
  show "StrDecimalLiteral t"
  proof (cases t)
    case Nil
    with n have "unsigned_decimal []" by (simp add: strip_sign_def)
    then show ?thesis using unsigned_head by blast
  next
    case (Cons c cs)
    show ?thesis
    proof (cases "c = CHR ''+'' \<or> c = CHR ''-''")
      case True
      with n Cons have "StrUnsignedDecimalLiteral cs"
        by (auto simp: strip_sign_def StrUnsignedDecimalLiteral_iff)
      with True Cons show ?thesis unfolding StrDecimalLiteral_def by blast
    next
      case False
      with n Cons have "StrUnsignedDecimalLiteral t"
        by (simp add: strip_sign_def StrUnsignedDecimalLiteral_iff)
      then show ?thesis unfolding StrDecimalLiteral_def by blast
    qed
  qed
qed

lemma NonDecimalIntegerLiteral_iff: "NonDecimalIntegerLiteral s = non_decimal s"
proof
  assume "NonDecimalIntegerLiteral s"
  then show "non_decimal s"
    by (auto simp: NonDecimalIntegerLiteral_def non_decimal_def)
next
  assume n: "non_decimal s"
  then obtain x r where s: "s = CHR ''0'' # x # r" and r: "r \<noteq> []"
    and k: "(x \<in> set ''xX'' \<and> list_all isHex r) \<or>
            (x \<in> set ''oO'' \<and> list_all (\<lambda>c. c \<in> set ''01234567'') r) \<or>
            (x \<in> set ''bB'' \<and> list_all (\<lambda>c. c \<in> set ''01'') r)"
    by (auto simp: non_decimal_def split: list.splits)
  show "NonDecimalIntegerLiteral s"
    unfolding NonDecimalIntegerLiteral_def
    by (rule exI[of _ r]) (use s r k in auto)
qed

lemma StrNumericLiteral_iff:
  "StrNumericLiteral t = (non_decimal t \<or> unsigned_decimal (strip_sign t))"
  by (auto simp: StrNumericLiteral_def StrDecimalLiteral_iff NonDecimalIntegerLiteral_iff)

lemma digits_not_white: "list_all isDigit s \<Longrightarrow> list_all (\<lambda>c. \<not> isWhite c) s"
  by (induction s) (simp_all add: digit_not_white)

lemma marks_not_white:
  "\<not> isWhite CHR ''+''" "\<not> isWhite CHR ''-''" "\<not> isWhite CHR ''e''" "\<not> isWhite CHR ''E''"
  "\<not> isWhite CHR ''.''"
  by (simp_all add: isWhite_def)

lemma SignedInteger_not_white: "SignedInteger s \<Longrightarrow> list_all (\<lambda>c. \<not> isWhite c) s"
  by (auto simp: SignedInteger_def DecimalDigits_def digits_not_white marks_not_white)

lemma ExponentPart_not_white: "ExponentPart s \<Longrightarrow> list_all (\<lambda>c. \<not> isWhite c) s"
  by (auto simp: ExponentPart_def SignedInteger_not_white marks_not_white)

lemma opt_ExponentPart_not_white: "e = [] \<or> ExponentPart e \<Longrightarrow> list_all (\<lambda>c. \<not> isWhite c) e"
  using ExponentPart_not_white by auto

lemma opt_digits_not_white: "b = [] \<or> DecimalDigits b \<Longrightarrow> list_all (\<lambda>c. \<not> isWhite c) b"
  by (auto simp: DecimalDigits_def digits_not_white)

lemma dot_not_white: "\<not> isWhite CHR ''.''"
  by (simp add: isWhite_def)

lemma unsigned_not_white:
  assumes "StrUnsignedDecimalLiteral s"
  shows "list_all (\<lambda>c. \<not> isWhite c) s"
proof -
  from assms consider "s = ''Infinity''"
    | a b e where "s = a @ CHR ''.'' # b @ e" "DecimalDigits a" "b = [] \<or> DecimalDigits b" "e = [] \<or> ExponentPart e"
    | b e where "s = CHR ''.'' # b @ e" "DecimalDigits b" "e = [] \<or> ExponentPart e"
    | a e where "s = a @ e" "DecimalDigits a" "e = [] \<or> ExponentPart e"
    unfolding StrUnsignedDecimalLiteral_def by blast
  then show ?thesis
  proof cases
    case 1
    then show ?thesis by (simp add: isWhite_def)
  next
    case (2 a b e)
    show ?thesis unfolding 2(1)
      using opt_digits_not_white[of a] 2(2) opt_digits_not_white[OF 2(3)]
        opt_ExponentPart_not_white[OF 2(4)] dot_not_white by simp
  next
    case (3 b e)
    show ?thesis unfolding 3(1)
      using opt_digits_not_white[of b] 3(2) opt_ExponentPart_not_white[OF 3(3)] dot_not_white by simp
  next
    case (4 a e)
    show ?thesis unfolding 4(1)
      using opt_digits_not_white[of a] 4(2) opt_ExponentPart_not_white[OF 4(3)] by simp
  qed
qed

lemma decimal_not_white: "StrDecimalLiteral s \<Longrightarrow> list_all (\<lambda>c. \<not> isWhite c) s"
  by (auto simp: StrDecimalLiteral_def unsigned_not_white marks_not_white)

lemma hexes_not_white: "list_all isHex s \<Longrightarrow> list_all (\<lambda>c. \<not> isWhite c) s"
  by (induction s) (simp_all add: hex_not_white)

lemma octals_not_white: "list_all (\<lambda>c. c \<in> set ''01234567'') s \<Longrightarrow> list_all (\<lambda>c. \<not> isWhite c) s"
  by (induction s) (auto simp: isWhite_def)

lemma bits_not_white: "list_all (\<lambda>c. c \<in> set ''01'') s \<Longrightarrow> list_all (\<lambda>c. \<not> isWhite c) s"
  by (induction s) (auto simp: isWhite_def)

lemma non_decimal_not_white: "NonDecimalIntegerLiteral s \<Longrightarrow> list_all (\<lambda>c. \<not> isWhite c) s"
proof -
  assume "NonDecimalIntegerLiteral s"
  then obtain p ds where s: "s = p @ ds" and p: "p \<in> {''0b'', ''0B'', ''0o'', ''0O'', ''0x'', ''0X''}"
    and d: "list_all (\<lambda>c. c \<in> set ''01'') ds \<or> list_all (\<lambda>c. c \<in> set ''01234567'') ds \<or> list_all isHex ds"
    unfolding NonDecimalIntegerLiteral_def by blast
  have "list_all (\<lambda>c. \<not> isWhite c) p" using p by (auto simp: isWhite_def)
  moreover have "list_all (\<lambda>c. \<not> isWhite c) ds"
    using d hexes_not_white octals_not_white bits_not_white by blast
  ultimately show ?thesis unfolding s by simp
qed

lemma numeric_not_empty: "StrNumericLiteral n \<Longrightarrow> n \<noteq> []"
  unfolding StrNumericLiteral_iff using unsigned_head[of "strip_sign n"]
  by (auto simp: non_decimal_def strip_sign_def)

lemma numeric_not_white: "StrNumericLiteral n \<Longrightarrow> list_all (\<lambda>c. \<not> isWhite c) n"
  unfolding StrNumericLiteral_def using decimal_not_white non_decimal_not_white by blast

lemma trim_white: "list_all isWhite s \<Longrightarrow> trim s = []"
proof -
  assume "list_all isWhite s"
  then have d: "dropWhile isWhite s = []" by (simp add: list_all_iff)
  show ?thesis unfolding trim_def d by simp
qed

lemma dropWhile_head: "xs \<noteq> [] \<Longrightarrow> \<not> P (hd xs) \<Longrightarrow> dropWhile P xs = xs"
  by (cases xs) simp_all

lemma trim_core:
  assumes l: "list_all isWhite l" and r: "list_all isWhite r"
    and n: "n \<noteq> []" and w: "list_all (\<lambda>c. \<not> isWhite c) n"
  shows "trim (l @ n @ r) = n"
proof -
  have h: "\<not> isWhite (hd n)" using n w by (cases n) simp_all
  have t: "\<not> isWhite (hd (rev n))" using n w by (simp add: hd_rev list_all_iff)
  have "dropWhile isWhite (l @ n @ r) = dropWhile isWhite (n @ r)"
    by (rule dropWhile_append2) (use l in \<open>simp add: list_all_iff\<close>)
  moreover have "dropWhile isWhite (n @ r) = n @ r"
    by (rule dropWhile_head) (use n h in simp_all)
  ultimately have 1: "dropWhile isWhite (l @ n @ r) = n @ r" by simp
  have "dropWhile isWhite (rev r @ rev n) = dropWhile isWhite (rev n)"
    by (rule dropWhile_append2) (use r in \<open>simp add: list_all_iff\<close>)
  moreover have "dropWhile isWhite (rev n) = rev n"
    by (rule dropWhile_head) (use n t in simp_all)
  ultimately have 2: "dropWhile isWhite (rev r @ rev n) = rev n" by simp
  have "trim (l @ n @ r) = rev (dropWhile isWhite (rev (n @ r)))"
    unfolding trim_def 1 ..
  also have "\<dots> = rev (rev n)" unfolding rev_append 2 ..
  finally show ?thesis by simp
qed

lemma trim_decomp: "\<exists>l r. s = l @ trim s @ r \<and> list_all isWhite l \<and> list_all isWhite r"
proof -
  define d where "d = dropWhile isWhite s"
  have s: "s = takeWhile isWhite s @ d" by (simp add: d_def)
  have "d = rev (takeWhile isWhite (rev d) @ dropWhile isWhite (rev d))"
    by (simp only: takeWhile_dropWhile_id rev_rev_ident)
  then have "d = rev (dropWhile isWhite (rev d)) @ rev (takeWhile isWhite (rev d))"
    by (simp only: rev_append)
  then have d: "d = trim s @ rev (takeWhile isWhite (rev d))"
    unfolding trim_def d_def .
  have a: "list_all isWhite (takeWhile isWhite s)"
    by (simp add: list_all_iff) (meson set_takeWhileD)
  have b: "list_all isWhite (rev (takeWhile isWhite (rev d)))"
    by (simp add: list_all_iff) (meson set_takeWhileD)
  have "s = takeWhile isWhite s @ trim s @ rev (takeWhile isWhite (rev d))"
    using s d by metis
  with a b show ?thesis by blast
qed

lemma StrWhiteSpaceChar_iff: "StrWhiteSpaceChar = isWhite"
  by (rule ext) (auto simp: StrWhiteSpaceChar_def WhiteSpace_def LineTerminator_def isWhite_def)

lemma isNaN_iff: "isNaN s = (\<not> StringNumericLiteral s)"
proof -
  have "StringNumericLiteral s = (trim s = [] \<or> StrNumericLiteral (trim s))"
  proof
    assume "StringNumericLiteral s"
    then consider "list_all isWhite s"
      | l n r where "s = l @ n @ r" "list_all isWhite l" "StrNumericLiteral n" "list_all isWhite r"
      unfolding StringNumericLiteral_def StrWhiteSpaceChar_iff by blast
    then show "trim s = [] \<or> StrNumericLiteral (trim s)"
    proof cases
      case 1
      then show ?thesis by (simp add: trim_white)
    next
      case (2 l n r)
      have "trim s = n"
        unfolding 2(1) using 2(2) 2(4) numeric_not_empty[OF 2(3)] numeric_not_white[OF 2(3)]
        by (rule trim_core)
      with 2(3) show ?thesis by simp
    qed
  next
    assume t: "trim s = [] \<or> StrNumericLiteral (trim s)"
    obtain l r where d: "s = l @ trim s @ r" "list_all isWhite l" "list_all isWhite r"
      using trim_decomp by blast
    show "StringNumericLiteral s"
    proof (cases "trim s = []")
      case True
      with d have "s = l @ r" by simp
      with d(2,3) have "list_all isWhite s" by simp
      then show ?thesis by (simp add: StringNumericLiteral_def StrWhiteSpaceChar_iff)
    next
      case False
      with t have "StrNumericLiteral (trim s)" by simp
      with d show ?thesis unfolding StringNumericLiteral_def StrWhiteSpaceChar_iff by blast
    qed
  qed
  then show ?thesis
    by (simp add: isNaN_def Let_def StrNumericLiteral_iff)
qed

section \<open>Sanitization\<close>

lemma is_sensitive_set: "set ks = set ks' \<Longrightarrow> is_sensitive ks k = is_sensitive ks' k"
  by (simp add: is_sensitive_def list_ex_iff)

lemma foldl_entries_cong:
  "(\<And>acc k v. (k, v) \<in> set es \<Longrightarrow> f acc (k, v) = g acc (k, v)) \<Longrightarrow> foldl f a es = foldl g a es"
  by (induction es arbitrary: a) auto

lemma sanitize_keys:
  "set (defaultSensitiveKeys @ ks) = set (defaultSensitiveKeys @ ks') \<Longrightarrow>
     sanitizeSensitiveData x ks = sanitizeSensitiveData x ks'"
proof (induction x ks arbitrary: ks' rule: sanitizeSensitiveData.induct)
  case (1 items sensitiveKeys)
  have s: "set (defaultSensitiveKeys @ defaultSensitiveKeys @ sensitiveKeys)
        = set (defaultSensitiveKeys @ defaultSensitiveKeys @ ks')"
    using 1(2) by auto
  have "\<And>x. x \<in> set items \<Longrightarrow>
          sanitizeSensitiveData x (defaultSensitiveKeys @ sensitiveKeys)
          = sanitizeSensitiveData x (defaultSensitiveKeys @ ks')"
    using 1(1)[OF _ s] .
  then show ?case by simp
next
  case (2 entries sensitiveKeys)
  have s: "set (defaultSensitiveKeys @ defaultSensitiveKeys @ sensitiveKeys)
        = set (defaultSensitiveKeys @ defaultSensitiveKeys @ ks')"
    using 2(2) by auto
  have k: "\<And>key. is_sensitive (defaultSensitiveKeys @ sensitiveKeys) key
               = is_sensitive (defaultSensitiveKeys @ ks') key"
    using 2(2) by (rule is_sensitive_set)
  have r: "\<And>key v. (key, v) \<in> set entries \<Longrightarrow>
          \<not> is_sensitive (defaultSensitiveKeys @ sensitiveKeys) key \<Longrightarrow> is_object v \<Longrightarrow>
          sanitizeSensitiveData v (defaultSensitiveKeys @ sensitiveKeys)
          = sanitizeSensitiveData v (defaultSensitiveKeys @ ks')"
    using 2(1)[OF _ refl _ _ s] .
  show ?case
    unfolding sanitizeSensitiveData.simps json.inject
    by (rule foldl_entries_cong) (auto simp: k r)
qed simp_all

lemma sanitize_scalar: "\<not> is_object a \<Longrightarrow> sanitizeSensitiveData a ks = a"
  by (cases a) (simp_all add: is_object_def)

lemma sanitize_again:
  "sanitizeSensitiveData x (defaultSensitiveKeys @ ks) = sanitizeSensitiveData x ks"
  by (rule sanitize_keys) auto

lemma sanitize_arr:
  "sanitizeSensitiveData (JArr xs) ks = JArr (map (\<lambda>x. sanitizeSensitiveData x ks) xs)"
  by (simp add: sanitize_again)

lemma sanitize_obj:
  "sanitizeSensitiveData (JObj es) ks =
     JObj (foldl (\<lambda>sanitized (k, v).
                    set_property sanitized k
                      (if is_sensitive (defaultSensitiveKeys @ ks) k then JStr ''[REDACTED]''
                       else sanitizeSensitiveData v ks))
                 [] es)"
  unfolding sanitizeSensitiveData.simps json.inject
  by (rule foldl_entries_cong) (auto simp: sanitize_again sanitize_scalar)

lemma update_fresh: "k \<notin> fst ` set acc \<Longrightarrow> AList.update k v acc = acc @ [(k, v)]"
  by (induction acc) auto

lemma set_property_loop:
  "distinct (map fst es) \<Longrightarrow> fst ` set es \<inter> fst ` set acc = {} \<Longrightarrow>
     foldl (\<lambda>sanitized (k, v). set_property sanitized k (f k v)) acc es
     = acc @ map (\<lambda>(k, v). (k, f k v)) (filter (\<lambda>(k, v). k \<noteq> ''__proto__'') es)"
proof (induction es arbitrary: acc)
  case Nil
  then show ?case by simp
next
  case (Cons e es)
  obtain k v where e: "e = (k, v)" by (cases e)
  have d: "distinct (map fst es)" and k: "k \<notin> fst ` set es" and ka: "k \<notin> fst ` set acc"
    and da: "fst ` set es \<inter> fst ` set acc = {}"
    using Cons.prems e by auto
  show ?case
  proof (cases "k = ''__proto__''")
    case True
    then show ?thesis using Cons.IH[OF d da] by (simp add: e set_property_def)
  next
    case False
    have "fst ` set es \<inter> fst ` set (acc @ [(k, f k v)]) = {}" using da k by auto
    from Cons.IH[OF d this] show ?thesis
      using False ka by (simp add: e set_property_def update_fresh)
  qed
qed

text \<open>
  On an object with distinct keys the loop keeps the order of the entries, leaves out the
  entry under \<^verbatim>\<open>__proto__\<close>, redacts under a sensitive key and sanitizes every other value.
\<close>

lemma sanitize_entries:
  assumes "distinct (map fst es)"
  shows "sanitizeSensitiveData (JObj es) ks =
     JObj (map (\<lambda>(k, v). (k, if is_sensitive (defaultSensitiveKeys @ ks) k then JStr ''[REDACTED]''
                               else sanitizeSensitiveData v ks))
               (filter (\<lambda>(k, v). k \<noteq> ''__proto__'') es))"
  unfolding sanitize_obj using set_property_loop[OF assms, of "[]"] by simp

lemma low_eq_sanitize:
  fixes a b :: "'n json" and xs ys :: "'n json list" and es fs :: "(string \<times> 'n json) list"
  shows "(low_eq K a b \<longrightarrow> (\<forall>ks. K = defaultSensitiveKeys @ ks \<longrightarrow>
        sanitizeSensitiveData a ks = sanitizeSensitiveData b ks))"
  and "(low_eq_items K xs ys \<longrightarrow> (\<forall>ks. K = defaultSensitiveKeys @ ks \<longrightarrow>
        map (\<lambda>x. sanitizeSensitiveData x ks) xs = map (\<lambda>x. sanitizeSensitiveData x ks) ys))"
  and "(low_eq_entries K es fs \<longrightarrow> (\<forall>ks acc. K = defaultSensitiveKeys @ ks \<longrightarrow>
        foldl (\<lambda>sanitized (k, v).
                 set_property sanitized k
                   (if is_sensitive (defaultSensitiveKeys @ ks) k then JStr ''[REDACTED]''
                    else sanitizeSensitiveData v ks)) acc es
        = foldl (\<lambda>sanitized (k, v).
                 set_property sanitized k
                   (if is_sensitive (defaultSensitiveKeys @ ks) k then JStr ''[REDACTED]''
                    else sanitizeSensitiveData v ks)) acc fs))"
  by (induction K a b and K xs ys and K es fs rule: low_eq_low_eq_items_low_eq_entries.induct)
     (auto simp add: sanitize_arr sanitize_obj simp del: sanitizeSensitiveData.simps(1,2))

text \<open>Two inputs that differ only under sensitive keys have the same sanitized output.\<close>

lemma sanitizer_ignores_sensitive_values:
  "low_eq (defaultSensitiveKeys @ ks) a b \<Longrightarrow> sanitizeSensitiveData a ks = sanitizeSensitiveData b ks"
  using low_eq_sanitize(1)[of "defaultSensitiveKeys @ ks" a b] by blast

lemma sanitizeHeaders_loop:
  "list_all2 (\<lambda>(n, v) (n', v'). n = n' \<and> (isSensitiveHeader (toLowerCase n) \<or> v = v')) hs hs' \<Longrightarrow>
     foldl (\<lambda>sanitized (name, v).
              set_property sanitized name (if isSensitiveHeader (toLowerCase name) then ''[REDACTED]'' else v)) acc hs
     = foldl (\<lambda>sanitized (name, v).
              set_property sanitized name (if isSensitiveHeader (toLowerCase name) then ''[REDACTED]'' else v)) acc hs'"
proof (induction hs hs' arbitrary: acc rule: list_all2_induct)
  case Nil
  then show ?case by simp
next
  case (Cons x xs y ys)
  obtain n v where x: "x = (n, v)" by (cases x)
  obtain n' v' where y: "y = (n', v')" by (cases y)
  from Cons(1) x y have "n = n'" "isSensitiveHeader (toLowerCase n) \<or> v = v'" by auto
  then have "set_property acc n (if isSensitiveHeader (toLowerCase n) then ''[REDACTED]'' else v)
           = set_property acc n' (if isSensitiveHeader (toLowerCase n') then ''[REDACTED]'' else v')"
    by auto
  with Cons.IH show ?case by (simp add: x y)
qed

lemma sanitizeHeaders_ignores_sensitive_values:
  "list_all2 (\<lambda>(n, v) (n', v'). n = n' \<and> (isSensitiveHeader (toLowerCase n) \<or> v = v')) hs hs' \<Longrightarrow>
     sanitizeHeaders (Some hs) = sanitizeHeaders (Some hs')"
  using sanitizeHeaders_loop[of hs hs' "[]"] by (simp add: sanitizeHeaders_def)

lemma isSensitiveHeader_is_sensitive:
  "isSensitiveHeader (toLowerCase name) = is_sensitive defaultSensitiveKeys name"
  by (simp add: isSensitiveHeader_def is_sensitive_def defaultSensitiveKeys_def)

lemma map_of_set_property:
  "map_of (set_property acc k v) n = (if n = k \<and> k \<noteq> ''__proto__'' then Some v else map_of acc n)"
  by (simp add: set_property_def update_conv')

lemma sanitizeHeaders_loop_lookup:
  "map_of (foldl (\<lambda>sanitized (name, v). set_property sanitized name (f name v)) acc hs) n
     = (case map_of (rev hs) n of
          None \<Rightarrow> map_of acc n
        | Some v \<Rightarrow> if n = ''__proto__'' then map_of acc n else Some (f n v))"
proof (induction hs arbitrary: acc)
  case Nil
  then show ?case by simp
next
  case (Cons h hs)
  obtain k v where h: "h = (k, v)" by (cases h)
  show ?case
    by (simp add: h Cons.IH map_of_set_property map_add_def split: option.splits)
qed

text \<open>
  What \<^verbatim>\<open>sanitizeHeaders\<close> stores under a name: nothing under \<^verbatim>\<open>__proto__\<close>, and otherwise the
  value of the last header of that name, redacted when the name is sensitive.
\<close>

lemma sanitizeHeaders_lookup:
  "map_of (sanitizeHeaders (Some hs)) n
     = (case map_of (rev hs) n of
          None \<Rightarrow> None
        | Some v \<Rightarrow> if n = ''__proto__'' then None
                    else Some (if isSensitiveHeader (toLowerCase n) then ''[REDACTED]'' else v))"
  using sanitizeHeaders_loop_lookup[of "\<lambda>name v. if isSensitiveHeader (toLowerCase name) then ''[REDACTED]'' else v" "[]" hs n]
  by (simp add: sanitizeHeaders_def split: option.splits)

section \<open>Servers\<close>


section \<open>Paths and operations\<close>

lemma lookup_update:
  "lookup_operation (AList.update path (AList.update m operation (path_item paths path)) paths) p' m'
     = (if p' = path \<and> m' = m then Some operation else lookup_operation paths p' m')"
  by (auto simp: lookup_operation_def path_item_def update_conv' split: option.splits)

lemma find_snoc:
  "find P (xs @ [a]) = (case find P xs of None \<Rightarrow> (if P a then Some a else None) | Some x \<Rightarrow> Some x)"
  by (induction xs) auto

lemma paths_from_lookup:
  "(case last_observation (p, m) es of
      None \<Rightarrow> lookup_operation (fst (generatePaths_from g acc es)) p m = lookup_operation acc p m
    | Some e \<Rightarrow> (\<exists>g'. lookup_operation (fst (generatePaths_from g acc es)) p m
                        = Some (fst (generateOperation g' e))))"
proof (induction es arbitrary: g acc)
  case Nil
  then show ?case by (simp add: last_observation_def)
next
  case (Cons a es)
  obtain operation g1 where ga: "generateOperation g a = (operation, g1)" by (cases "generateOperation g a")
  let ?acc1 = "AList.update (normalizePath (ep_pathname a))
                 (AList.update (toLowerCase (ep_method a)) operation (path_item acc (normalizePath (ep_pathname a)))) acc"
  have step: "generatePaths_from g acc (a # es) = generatePaths_from g1 ?acc1 es"
    by (simp add: ga Let_def)
  have lo: "last_observation (p, m) (a # es) =
              (case last_observation (p, m) es of
                 None \<Rightarrow> (if operation_key a = (p, m) then Some a else None)
               | Some x \<Rightarrow> Some x)"
    by (simp add: last_observation_def find_snoc)
  show ?case
  proof (cases "last_observation (p, m) es")
    case None
    with Cons.IH[of g1 ?acc1]
    have "lookup_operation (fst (generatePaths_from g1 ?acc1 es)) p m = lookup_operation ?acc1 p m"
      by simp
    also have "\<dots> = (if operation_key a = (p, m) then Some operation else lookup_operation acc p m)"
      by (auto simp: lookup_update operation_key_def)
    finally have r: "lookup_operation (fst (generatePaths_from g acc (a # es))) p m
                  = (if operation_key a = (p, m) then Some operation else lookup_operation acc p m)"
      by (simp only: step)
    show ?thesis
    proof (cases "operation_key a = (p, m)")
      case True
      have "operation = fst (generateOperation g a)" by (simp add: ga)
      with r True None lo show ?thesis by auto
    next
      case False
      with r None lo show ?thesis by simp
    qed
  next
    case (Some e)
    with Cons.IH[of g1 ?acc1] lo step show ?thesis by simp
  qed
qed




subsection \<open>Fields\<close>

lemma generateResponses_fst:
  "fst (generateResponses g e) = fst (generateResponses g' e)"
  by (simp add: generateResponses_def generateResponseContent_def generateResponseSchema_def
        Let_def split: prod.splits option.splits)


lemma generateOperation_security:
  "op_security (fst (generateOperation g e)) = generateSecurity e"
  by (simp add: generateOperation_def Let_def split: prod.splits)


lemma generateOperation_operationId:
  "op_operationId (fst (generateOperation g e))
     = fst (generateUniqueOperationId g (ep_method e) (ep_pathname e))"
  by (simp add: generateOperation_def Let_def split: prod.splits)





subsection \<open>One entry for a key\<close>






subsection \<open>The uniqueness loop\<close>

lemma unique_loop_unused: "operationId \<notin> set cache \<Longrightarrow> unique_loop cache base c operationId = operationId"
  by (subst unique_loop.simps) simp

lemma unique_loop_fresh: "unique_loop cache base c operationId \<notin> set cache"
proof (induction cache base c operationId rule: unique_loop.induct)
  case (1 cache base counter operationId)
  then show ?case by (subst unique_loop.simps) simp
qed

lemma unique_loop_least:
  "operationId \<in> set cache \<Longrightarrow>
     \<exists>k\<ge>c. unique_loop cache base c operationId = base @ show_nat k
            \<and> (\<forall>j. c \<le> j \<and> j < k \<longrightarrow> base @ show_nat j \<in> set cache)"
proof (induction cache base c operationId rule: unique_loop.induct)
  case (1 cache base counter operationId)
  have u: "unique_loop cache base counter operationId
            = unique_loop cache base (Suc counter) (base @ show_nat counter)"
    using 1(2) by (subst unique_loop.simps) simp
  show ?case
  proof (cases "base @ show_nat counter \<in> set cache")
    case True
    from 1(1)[OF 1(2) True] obtain k where k: "Suc counter \<le> k"
      "unique_loop cache base (Suc counter) (base @ show_nat counter) = base @ show_nat k"
      "\<forall>j. Suc counter \<le> j \<and> j < k \<longrightarrow> base @ show_nat j \<in> set cache" by blast
    have "\<forall>j. counter \<le> j \<and> j < k \<longrightarrow> base @ show_nat j \<in> set cache"
    proof (intro allI impI)
      fix j assume j: "counter \<le> j \<and> j < k"
      show "base @ show_nat j \<in> set cache"
      proof (cases "j = counter")
        case True
        with \<open>base @ show_nat counter \<in> set cache\<close> show ?thesis by simp
      next
        case False
        with j have "Suc counter \<le> j \<and> j < k" by simp
        with k(3) show ?thesis by blast
      qed
    qed
    with k(1,2) u show ?thesis by (intro exI[of _ k]) simp
  next
    case False
    then have "unique_loop cache base (Suc counter) (base @ show_nat counter) = base @ show_nat counter"
      by (rule unique_loop_unused)
    with u show ?thesis by (intro exI[of _ counter]) auto
  qed
qed

subsection \<open>What a call leaves in the caches\<close>

lemma uid_cache_only:
  "operationIdCache g1 = operationIdCache g2 \<Longrightarrow>
     fst (generateUniqueOperationId g1 m p) = fst (generateUniqueOperationId g2 m p)
     \<and> operationIdCache (snd (generateUniqueOperationId g1 m p))
         = operationIdCache (snd (generateUniqueOperationId g2 m p))"
  by (simp add: generateUniqueOperationId_def Let_def)

lemma responses_keep_ids:
  "operationIdCache (snd (generateResponses g e)) = operationIdCache g"
  by (simp add: generateResponses_def generateResponseContent_def generateResponseSchema_def
        Let_def split: prod.splits option.splits)

lemma generateOperation_cache_only:
  assumes "operationIdCache g1 = operationIdCache g2"
  shows "fst (generateOperation g1 e) = fst (generateOperation g2 e)
         \<and> operationIdCache (snd (generateOperation g1 e)) = operationIdCache (snd (generateOperation g2 e))"
proof -
  obtain i1 h1 where u1: "generateUniqueOperationId g1 (ep_method e) (ep_pathname e) = (i1, h1)"
    by (cases "generateUniqueOperationId g1 (ep_method e) (ep_pathname e)")
  obtain i2 h2 where u2: "generateUniqueOperationId g2 (ep_method e) (ep_pathname e) = (i2, h2)"
    by (cases "generateUniqueOperationId g2 (ep_method e) (ep_pathname e)")
  from uid_cache_only[OF assms, of "ep_method e" "ep_pathname e"] u1 u2
  have i: "i1 = i2" and h: "operationIdCache h1 = operationIdCache h2" by simp_all
  obtain r1 k1 where r1: "generateResponses h1 e = (r1, k1)" by (cases "generateResponses h1 e")
  obtain r2 k2 where r2: "generateResponses h2 e = (r2, k2)" by (cases "generateResponses h2 e")
  from generateResponses_fst[of h1 e h2] r1 r2 have r: "r1 = r2" by simp
  from responses_keep_ids[of h1 e] responses_keep_ids[of h2 e] r1 r2 h
  have k: "operationIdCache k1 = operationIdCache k2" by simp
  show ?thesis
    by (simp add: generateOperation_def u1 u2 r1 r2 i r k Let_def)
qed

lemma paths_from_cache_only:
  "operationIdCache g1 = operationIdCache g2 \<Longrightarrow>
     fst (generatePaths_from g1 acc es) = fst (generatePaths_from g2 acc es)
     \<and> operationIdCache (snd (generatePaths_from g1 acc es))
         = operationIdCache (snd (generatePaths_from g2 acc es))"
proof (induction es arbitrary: g1 g2 acc)
  case Nil
  then show ?case by simp
next
  case (Cons a es)
  obtain o1 h1 where a1: "generateOperation g1 a = (o1, h1)" by (cases "generateOperation g1 a")
  obtain o2 h2 where a2: "generateOperation g2 a = (o2, h2)" by (cases "generateOperation g2 a")
  from generateOperation_cache_only[OF Cons.prems, of a] a1 a2
  have o: "o1 = o2" and h: "operationIdCache h1 = operationIdCache h2" by simp_all
  from Cons.IH[OF h] show ?case by (simp add: a1 a2 o Let_def)
qed

lemma generateOperation_cache_grows:
  "set (operationIdCache g) \<subseteq> set (operationIdCache (snd (generateOperation g e)))
   \<and> op_operationId (fst (generateOperation g e)) \<in> set (operationIdCache (snd (generateOperation g e)))"
proof -
  obtain i h where u: "generateUniqueOperationId g (ep_method e) (ep_pathname e) = (i, h)"
    by (cases "generateUniqueOperationId g (ep_method e) (ep_pathname e)")
  then have h: "operationIdCache h = set_add (operationIdCache g) i"
    by (auto simp: generateUniqueOperationId_def Let_def)
  obtain r k where r: "generateResponses h e = (r, k)" by (cases "generateResponses h e")
  with responses_keep_ids[of h e] have k: "operationIdCache k = operationIdCache h" by simp
  show ?thesis
    by (auto simp: generateOperation_def u r k h Let_def set_add_def)
qed

lemma paths_from_cache_grows:
  "set (operationIdCache g) \<subseteq> set (operationIdCache (snd (generatePaths_from g acc es)))"
proof (induction es arbitrary: g acc)
  case Nil
  then show ?case by simp
next
  case (Cons a es)
  obtain o1 h1 where a1: "generateOperation g a = (o1, h1)" by (cases "generateOperation g a")
  with generateOperation_cache_grows[of g a] have "set (operationIdCache g) \<subseteq> set (operationIdCache h1)"
    by simp
  with Cons.IH[of h1] show ?case by (auto simp: a1 Let_def)
qed


lemma methodPrefix_other:
  "toUpperCase m \<notin> set [''GET'', ''POST'', ''PUT'', ''DELETE'', ''PATCH'', ''HEAD'', ''OPTIONS'']
     \<Longrightarrow> methodPrefix m = toLowerCase m"
  by (simp add: methodPrefix_def)

lemma generateUniqueOperationId_id:
  "fst (generateUniqueOperationId g m p)
     = unique_loop (operationIdCache g) (methodPrefix m @ capitalize (last_or (path_segments p) ''item'')) 1
         (methodPrefix m @ capitalize (last_or (path_segments p) ''item''))"
  by (simp add: generateUniqueOperationId_def Let_def)

lemma operationId_shape:
  "op_operationId (fst (generateOperation g e)) = base_operationId e
   \<or> (\<exists>k\<ge>1. op_operationId (fst (generateOperation g e)) = base_operationId e @ show_nat k)"
proof (cases "base_operationId e \<in> set (operationIdCache g)")
  case True
  from unique_loop_least[OF True, of 1 "base_operationId e"]
  show ?thesis
    by (auto simp: generateOperation_operationId generateUniqueOperationId_id base_operationId_def)
next
  case False
  then show ?thesis
    by (simp add: generateOperation_operationId generateUniqueOperationId_id base_operationId_def
          unique_loop_unused)
qed

lemma operation_in_paths:
  assumes "lookup_operation (fst (generatePaths g endpoints)) p m = Some operation"
  shows "\<exists>e' g'. last_observation (p, m) endpoints = Some e' \<and> operation = fst (generateOperation g' e')"
proof (cases "last_observation (p, m) endpoints")
  case None
  with paths_from_lookup[where p = p and m = m and es = endpoints and g = g and acc = "[]"] assms
  show ?thesis by (simp add: generatePaths_def lookup_operation_def)
next
  case (Some e')
  with paths_from_lookup[where p = p and m = m and es = endpoints and g = g and acc = "[]"] assms
  show ?thesis by (auto simp: generatePaths_def)
qed


section \<open>The parts of the document\<close>

lemma d_paths_eq:
  "endpoints \<noteq> [] \<Longrightarrow>
     d_paths (fst (generateOpenAPISpec parse now g endpoints opts)) = fst (generatePaths g endpoints)"
  by (simp add: generateOpenAPISpec_def Let_def split: prod.splits)

lemma d_schemes_eq:
  "endpoints \<noteq> [] \<Longrightarrow>
     co_securitySchemes (d_components (fst (generateOpenAPISpec parse now g endpoints opts)))
       = Some (generateSecuritySchemes endpoints)"
  by (simp add: generateOpenAPISpec_def generateComponents_def Let_def split: prod.splits)

lemma generateSecurity_has_header:
  "generateSecurity e = (if has_header auth_like e then [''bearerAuth''] else [])"
  by (simp add: generateSecurity_def has_header_def split: option.splits)

lemma generateSecuritySchemes_has_header:
  "generateSecuritySchemes endpoints =
     (if list_ex (has_header (\<lambda>h. includes_str (toLowerCase h) ''authorization'')) endpoints
      then [(''bearerAuth'', \<lparr>ss_type = ''http'', ss_scheme = ''bearer'', ss_bearerFormat = ''JWT''\<rparr>)]
      else [])"
proof -
  have "(\<lambda>e. case ep_headers e of None \<Rightarrow> False
              | Some hs \<Rightarrow> list_ex (\<lambda>h. includes_str (toLowerCase h) ''authorization'') (map fst hs))
        = has_header (\<lambda>h. includes_str (toLowerCase h) ''authorization'')"
    by (rule ext) (simp add: has_header_def)
  then show ?thesis by (simp add: generateSecuritySchemes_def Let_def)
qed

lemma authorization_is_auth_like:
  "has_header (\<lambda>h. includes_str (toLowerCase h) ''authorization'') e \<Longrightarrow> has_header auth_like e"
  by (auto simp: has_header_def auth_like_def list_ex_iff split: option.splits)

section \<open>Grouping and statistics\<close>

lemma group_step_unparseable:
  "parse (ep_url e) = None \<Longrightarrow> group_step parse groups e = Inl TypeError"
  by (simp add: group_step_def getEndpointGroupKey_def)

lemma group_loop_unparseable:
  "e \<in> set endpoints \<Longrightarrow> parse (ep_url e) = None \<Longrightarrow> group_loop parse groups endpoints = Inl TypeError"
proof (induction endpoints arbitrary: groups)
  case Nil
  then show ?case by simp
next
  case (Cons a es)
  show ?case
  proof (cases "group_step parse groups a")
    case (Inl err)
    then show ?thesis by (cases err) simp
  next
    case (Inr groups')
    with Cons.prems group_step_unparseable[of parse a groups] have "e \<in> set es" by auto
    from Cons.IH[OF this Cons.prems(2)] Inr show ?thesis by simp
  qed
qed

lemma update_key_set: "fst ` set (AList.update k v al) = insert k (fst ` set al)"
proof -
  have "set (map fst (AList.update k v al)) = insert k (set (map fst al))"
    by (simp add: update_keys) auto
  then show ?thesis by simp
qed

lemma bump_keys: "fst ` set (bump counts k) = insert k (fst ` set counts)"
  by (simp add: bump_def update_key_set)

lemma sortMapByValue_keys: "fst ` set (sortMapByValue entries) = fst ` set entries"
  by (simp add: sortMapByValue_def)

lemma statistics_loop_methods:
  "fst ` set (st_methods (foldl (\<lambda>stats e.
            stats\<lparr>st_uniqueHosts := (case parse (ep_url e) of
                                        None \<Rightarrow> st_uniqueHosts stats
                                      | Some u \<Rightarrow> set_add (st_uniqueHosts stats) (url_hostname u)),
                   st_methods := bump (st_methods stats) (ep_method e),
                   st_statusCodes := bump (st_statusCodes stats) (ep_status e),
                   st_contentTypes := (case ep_contentType e of
                                         None \<Rightarrow> st_contentTypes stats
                                       | Some ct \<Rightarrow> if ct \<noteq> [] \<and> ct \<noteq> ''unknown''
                                                    then bump (st_contentTypes stats) ct
                                                    else st_contentTypes stats)\<rparr>) s0 endpoints))
     = fst ` set (st_methods s0) \<union> ep_method ` set endpoints
   \<and> fst ` set (st_statusCodes (foldl (\<lambda>stats e.
            stats\<lparr>st_uniqueHosts := (case parse (ep_url e) of
                                        None \<Rightarrow> st_uniqueHosts stats
                                      | Some u \<Rightarrow> set_add (st_uniqueHosts stats) (url_hostname u)),
                   st_methods := bump (st_methods stats) (ep_method e),
                   st_statusCodes := bump (st_statusCodes stats) (ep_status e),
                   st_contentTypes := (case ep_contentType e of
                                         None \<Rightarrow> st_contentTypes stats
                                       | Some ct \<Rightarrow> if ct \<noteq> [] \<and> ct \<noteq> ''unknown''
                                                    then bump (st_contentTypes stats) ct
                                                    else st_contentTypes stats)\<rparr>) s0 endpoints))
     = fst ` set (st_statusCodes s0) \<union> ep_status ` set endpoints"
proof (induction endpoints arbitrary: s0)
  case Nil
  then show ?case by simp
next
  case (Cons a es)
  show ?case
    unfolding foldl_Cons by (subst Cons.IH, subst Cons.IH) (auto simp: bump_keys)
qed

lemma statistics_methods:
  "fst ` set (st_methods (generateStatistics parse endpoints)) = ep_method ` set endpoints
   \<and> fst ` set (st_statusCodes (generateStatistics parse endpoints)) = ep_status ` set endpoints"
  using statistics_loop_methods[of parse "\<lparr>st_totalEndpoints = length endpoints, st_uniqueHosts = [], st_methods = [],
           st_statusCodes = [], st_contentTypes = []\<rparr>" endpoints]
  by (simp add: generateStatistics_def Let_def sortMapByValue_keys)

section \<open>The claim about templating\<close>

text \<open>
  Claim C2, as the code has it. \<^verbatim>\<open>OpenAPIGenerator.normalizePath\<close>, three global
  replacements over the whole path, computes the per-segment rule: every segment that
  follows a slash is replaced by \<^verbatim>\<open>{id}\<close> when it is a non-empty run of digits, else by
  \<^verbatim>\<open>{uuid}\<close> when it has the 8-4-4-4-12 shape in hexadecimal digits of either case, else by
  \<^verbatim>\<open>{objectId}\<close> when it is 24 hexadecimal digits of either case, and is kept otherwise;
  what stands before the first slash is kept.
\<close>

theorem normalizePath_per_segment:
  "normalizePath p = template_of p
   \<and> (is_numeric s \<longleftrightarrow> s \<noteq> [] \<and> list_all isDigit s)
   \<and> (is_uuid s \<longleftrightarrow>
        (\<exists>a b c d e. s = a @ ''-'' @ b @ ''-'' @ c @ ''-'' @ d @ ''-'' @ e
           \<and> length a = 8 \<and> length b = 4 \<and> length c = 4 \<and> length d = 4 \<and> length e = 12
           \<and> list_all isHex a \<and> list_all isHex b \<and> list_all isHex c \<and> list_all isHex d
           \<and> list_all isHex e))
   \<and> (is_objectid s \<longleftrightarrow> length s = 24 \<and> list_all isHex s)"
proof -
  obtain s0 segs where sp: "split_on (CHR ''/'') p = s0 # segs"
    by (cases "split_on (CHR ''/'') p") auto
  from split_on_decomp[OF sp] normalizePath_flat[of segs s0] sp
  have "normalizePath p = template_of p"
    by (simp add: template_of_def join_slash_flat)
  then show ?thesis
    using is_uuid_iff[of s] is_objectid_iff[of s] by (simp add: is_numeric_def)
qed

theorem normalizePath_per_segment_witness:
  "normalizePath ''/users/42/posts/a1b2c3d4-e5f6-7890-ABCD-ef1234567890/507f1f77bcf86cd799439011/x9''
     = ''/users/{id}/posts/{uuid}/{objectId}/x9''"
proof -
  have "template_of ''/users/42/posts/a1b2c3d4-e5f6-7890-ABCD-ef1234567890/507f1f77bcf86cd799439011/x9''
          = ''/users/{id}/posts/{uuid}/{objectId}/x9''"
    by code_simp
  with normalizePath_per_segment show ?thesis by simp
qed

text \<open>
  The Analyzer's \<^verbatim>\<open>normalizePath\<close> is another function: on an ObjectId it writes \<^verbatim>\<open>{id}\<close>
  where the Synthesizer writes \<^verbatim>\<open>{objectId}\<close>.
\<close>

theorem analyzer_template_differs:
  "analyzer_normalizePath ''/items/507f1f77bcf86cd799439011'' = ''/items/{id}''
   \<and> normalizePath ''/items/507f1f77bcf86cd799439011'' = ''/items/{objectId}''"
  by code_simp

section \<open>The claims about the Analyzer\<close>

text \<open>
  Claim C8. A sample is classified as \<^verbatim>\<open>boolean\<close> when it is the literal \<^verbatim>\<open>true\<close> or \<^verbatim>\<open>false\<close>,
  else as \<^verbatim>\<open>number\<close> when it is not empty and converts to a number, that is, when it is a
  \<^verbatim>\<open>StringNumericLiteral\<close> of the language standard, else as \<^verbatim>\<open>string\<close>; the Synthesizer's
  \<^verbatim>\<open>inferParameterType\<close> classifies the same way. On one or more samples,
  \<^verbatim>\<open>inferParameterTypes\<close> returns the one type with the first sample as its example when all
  samples have the same type; otherwise it returns the type \<^verbatim>\<open>string\<close>, an \<^verbatim>\<open>anyOf\<close> that lists
  each type of a sample once, and as examples the first three distinct samples.
\<close>

theorem inferParameterTypes_spec:
  assumes "samples \<noteq> []"
  shows "(if \<forall>s \<in> set samples. sample_type s = sample_type (hd samples)
          then inferParameterTypes samples =
                 \<lparr>it_type = sample_type (hd samples), it_example = Some (hd samples),
                  it_anyOf = None, it_examples = None\<rparr>
          else inferParameterTypes samples =
                 \<lparr>it_type = ''string'', it_example = None,
                  it_anyOf = Some (new_Set (map sample_type samples)),
                  it_examples = Some (take 3 (new_Set samples))\<rparr>)
         \<and> distinct (new_Set (map sample_type samples))
         \<and> set (new_Set (map sample_type samples)) = sample_type ` set samples
         \<and> distinct (new_Set samples) \<and> set (new_Set samples) = set samples
         \<and> length (take 3 (new_Set samples)) \<le> 3
         \<and> (sample_type s = ''boolean'') = (s = ''true'' \<or> s = ''false'')
         \<and> (sample_type s = ''number'')
             = (s \<noteq> ''true'' \<and> s \<noteq> ''false'' \<and> s \<noteq> [] \<and> StringNumericLiteral s)
         \<and> (sample_type s = ''string'')
             = (s \<noteq> ''true'' \<and> s \<noteq> ''false'' \<and> \<not> (s \<noteq> [] \<and> StringNumericLiteral s))
         \<and> inferParameterType s = sample_type s"
proof -
  have loop: "foldl (\<lambda>(types, uniqueValues) sample.
                       (set_add types (sample_type sample), set_add uniqueValues sample)) ([], []) samples
              = (new_Set (map sample_type samples), new_Set samples)"
    by (simp add: infer_loop new_Set_def)
  have len: "length (new_Set (map sample_type samples)) = 1
               \<longleftrightarrow> (\<forall>s \<in> set samples. sample_type s = sample_type (hd samples))"
    using card_image_one[OF assms, of sample_type] by (simp add: new_Set_length)
  have first: "new_Set (map sample_type samples) ! 0 = sample_type (hd samples)"
    using assms by (simp add: new_Set_first hd_map)
  have uv0: "new_Set samples ! 0 = hd samples"
    using assms by (rule new_Set_first)
  have main: "inferParameterTypes samples =
      (if length (new_Set (map sample_type samples)) = 1
       then \<lparr>it_type = new_Set (map sample_type samples) ! 0, it_example = Some (new_Set samples ! 0),
             it_anyOf = None, it_examples = None\<rparr>
       else \<lparr>it_type = ''string'', it_example = None,
             it_anyOf = Some (new_Set (map sample_type samples)),
             it_examples = Some (take 3 (new_Set samples))\<rparr>)"
    using assms by (simp add: inferParameterTypes_def loop)
  have cls: "(sample_type s = ''boolean'') = (s = ''true'' \<or> s = ''false'')
         \<and> (sample_type s = ''number'')
             = (s \<noteq> ''true'' \<and> s \<noteq> ''false'' \<and> s \<noteq> [] \<and> StringNumericLiteral s)
         \<and> (sample_type s = ''string'')
             = (s \<noteq> ''true'' \<and> s \<noteq> ''false'' \<and> \<not> (s \<noteq> [] \<and> StringNumericLiteral s))
         \<and> inferParameterType s = sample_type s"
    by (auto simp add: sample_type_def inferParameterType_def isNaN_iff)
  have sets: "distinct (new_Set (map sample_type samples))
         \<and> set (new_Set (map sample_type samples)) = sample_type ` set samples
         \<and> distinct (new_Set samples) \<and> set (new_Set samples) = set samples
         \<and> length (take 3 (new_Set samples)) \<le> 3
         \<and> (sample_type s = ''boolean'') = (s = ''true'' \<or> s = ''false'')
         \<and> (sample_type s = ''number'')
             = (s \<noteq> ''true'' \<and> s \<noteq> ''false'' \<and> s \<noteq> [] \<and> StringNumericLiteral s)
         \<and> (sample_type s = ''string'')
             = (s \<noteq> ''true'' \<and> s \<noteq> ''false'' \<and> \<not> (s \<noteq> [] \<and> StringNumericLiteral s))
         \<and> inferParameterType s = sample_type s"
    using cls by simp
  show ?thesis
  proof (cases "\<forall>s \<in> set samples. sample_type s = sample_type (hd samples)")
    case True
    show ?thesis
      unfolding main len first uv0 if_P[OF True] by (rule conjI) (rule refl, rule sets)
  next
    case False
    show ?thesis
      unfolding main len first uv0 if_not_P[OF False] by (rule conjI) (rule refl, rule sets)
  qed
qed

text \<open>
  The samples \<^verbatim>\<open>5\<close> and \<^verbatim>\<open>abc\<close> of the specification's scenario; four samples that are all
  numbers: one behind a no-break space, a signed decimal with an exponent, a hexadecimal
  integer and white space alone; and the no-break space sample against the grammar.
\<close>

theorem inferParameterTypes_spec_witness:
  "inferParameterTypes [''5'', ''abc''] =
     \<lparr>it_type = ''string'', it_example = None,
      it_anyOf = Some [''number'', ''string''], it_examples = Some [''5'', ''abc'']\<rparr>
   \<and> inferParameterTypes [[CHR 0xA0, CHR ''7''], ''-1.5e3'', ''0x1F'', '' ''] =
     \<lparr>it_type = ''number'', it_example = Some [CHR 0xA0, CHR ''7''], it_anyOf = None, it_examples = None\<rparr>
   \<and> StringNumericLiteral [CHR 0xA0, CHR ''7'']
   \<and> \<not> StringNumericLiteral ''abc''"
proof -
  have ne: "[''5'', ''abc''] \<noteq> ([] :: string list)" by simp
  have t1: "sample_type ''5'' = ''number''" by code_simp
  have t2: "sample_type ''abc'' = ''string''" by code_simp
  have s1: "new_Set [''number'', ''string''] = [''number'', ''string'']"
    by (simp add: new_Set_def set_add_def)
  have s2: "new_Set [''5'', ''abc''] = [''5'', ''abc'']"
    by (simp add: new_Set_def set_add_def)
  from inferParameterTypes_spec[OF ne] have mixed: "inferParameterTypes [''5'', ''abc''] =
     \<lparr>it_type = ''string'', it_example = None,
      it_anyOf = Some [''number'', ''string''], it_examples = Some [''5'', ''abc'']\<rparr>"
    by (simp add: t1 t2 s1 s2)
  have nf: "[[CHR 0xA0, CHR ''7''], ''-1.5e3'', ''0x1F'', '' ''] \<noteq> ([] :: string list)" by simp
  have t3: "sample_type [CHR 0xA0, CHR ''7''] = ''number''" by code_simp
  have t4: "sample_type ''-1.5e3'' = ''number''" by code_simp
  have t5: "sample_type ''0x1F'' = ''number''" by code_simp
  have t6: "sample_type '' '' = ''number''" by code_simp
  from inferParameterTypes_spec[OF nf]
  have agree: "inferParameterTypes [[CHR 0xA0, CHR ''7''], ''-1.5e3'', ''0x1F'', '' ''] =
     \<lparr>it_type = ''number'', it_example = Some [CHR 0xA0, CHR ''7''], it_anyOf = None, it_examples = None\<rparr>"
    by (simp add: t3 t4 t5 t6)
  from inferParameterTypes_spec[OF ne, where s = "[CHR 0xA0, CHR ''7'']"]
  have g1: "StringNumericLiteral [CHR 0xA0, CHR ''7'']"
    by (simp add: t3)
  from inferParameterTypes_spec[OF ne, where s = "''abc''"]
  have g2: "\<not> StringNumericLiteral ''abc''"
    by (simp add: t2)
  show ?thesis
    by (intro conjI) (rule mixed, rule agree, rule g1, rule g2)
qed

text \<open>
  Claim C6 on the code. \<^verbatim>\<open>getEndpointGroupKey\<close> parses the URL outside any \<^verbatim>\<open>try\<close>, so with one
  observation whose URL does not parse \<^verbatim>\<open>groupEndpointsByPattern\<close> throws, and with it the
  Analyzer's \<^verbatim>\<open>analyzeEndpoints\<close>, although \<^verbatim>\<open>generateStatistics\<close> alone would have counted the
  method and the status of that observation.
\<close>

theorem analyzer_throws_on_unparseable_url:
  assumes "e \<in> set endpoints" and "parse (ep_url e) = None"
  shows "analyzer_analyzeEndpoints parse endpoints = Inl TypeError
         \<and> groupEndpointsByPattern parse endpoints = Inl TypeError
         \<and> ep_method e \<in> fst ` set (st_methods (generateStatistics parse endpoints))
         \<and> ep_status e \<in> fst ` set (st_statusCodes (generateStatistics parse endpoints))"
proof -
  have g: "groupEndpointsByPattern parse endpoints = Inl TypeError"
    using group_loop_unparseable[where parse = parse and e = e and endpoints = endpoints and groups = "[]"] assms
    by (simp add: groupEndpointsByPattern_def)
  have ne: "endpoints \<noteq> []" using assms(1) by auto
  show ?thesis
    using g ne assms(1) statistics_methods[of parse endpoints]
    by (simp add: analyzer_analyzeEndpoints_def)
qed

theorem analyzer_throws_on_unparseable_url_witness:
  "analyzer_analyzeEndpoints example_urls
     [observation ''https://api.x.com/users'' ''GET'' ''/users'' 200,
      observation ''not a url'' ''POST'' ''/orders'' 201] = Inl TypeError
   \<and> map fst (st_methods (generateStatistics example_urls
     [observation ''https://api.x.com/users'' ''GET'' ''/users'' 200,
      observation ''not a url'' ''POST'' ''/orders'' 201])) = [''GET'', ''POST'']"
proof -
  have m: "observation ''not a url'' ''POST'' ''/orders'' 201
             \<in> set [observation ''https://api.x.com/users'' ''GET'' ''/users'' 200,
                    observation ''not a url'' ''POST'' ''/orders'' 201]" by simp
  have u: "example_urls (ep_url (observation ''not a url'' ''POST'' ''/orders'' 201)) = None"
    by code_simp
  have s: "map fst (st_methods (generateStatistics example_urls
     [observation ''https://api.x.com/users'' ''GET'' ''/users'' 200,
      observation ''not a url'' ''POST'' ''/orders'' 201])) = [''GET'', ''POST'']"
    by code_simp
  from analyzer_throws_on_unparseable_url[where parse = example_urls
         and e = "observation ''not a url'' ''POST'' ''/orders'' 201"
         and endpoints = "[observation ''https://api.x.com/users'' ''GET'' ''/users'' 200,
                           observation ''not a url'' ''POST'' ''/orders'' 201]"] m u s
  show ?thesis by blast
qed

section \<open>The claim about sanitization\<close>

text \<open>
  Claim C10. The sanitizer does not leave every scalar under a key that is not sensitive
  unchanged. The key \<^verbatim>\<open>__proto__\<close> contains none of the sensitive substrings, yet the object
  with the entries \<^verbatim>\<open>__proto__: 1\<close> and \<^verbatim>\<open>a: 2\<close>, as \<^verbatim>\<open>JSON.parse\<close> builds it, is sanitized to
  the object with the one entry \<^verbatim>\<open>a: 2\<close>: the assignment \<^verbatim>\<open>sanitized[key] = value\<close> runs the
  inherited setter of \<^verbatim>\<open>__proto__\<close> and stores nothing.
\<close>

theorem sanitize_drops_proto_entry:
  "\<not> is_sensitive (defaultSensitiveKeys @ []) ''__proto__''
   \<and> sanitizeSensitiveData (JObj [(''__proto__'', JNum (1::nat)), (''a'', JNum 2)]) []
       = JObj [(''a'', JNum 2)]"
  by code_simp

section \<open>The claims about the document\<close>




section \<open>The claims about paths and operations\<close>




text \<open>
  Claim C3, as the code has it. The identifier of every operation of the paths is made from
  the observation the operation was generated from, the last one with its key: the method
  prefix (\<^verbatim>\<open>get\<close> for GET, \<^verbatim>\<open>create\<close> for POST, \<^verbatim>\<open>update\<close> for PUT, \<^verbatim>\<open>patch\<close> for PATCH,
  \<^verbatim>\<open>delete\<close> for DELETE, any other verb in lower case) followed by the capitalized last
  non-empty segment of the observation's own path name, not of its template (\<^verbatim>\<open>item\<close> when
  the path has no segment), and then by a decimal counter when that identifier is in the
  cache already. The identifier returned is never one the cache holds; it is the plain one
  when the cache does not hold it.
\<close>

theorem operationId_from_raw_pathname:
  "(lookup_operation (fst (generatePaths g endpoints)) p m = Some operation \<longrightarrow>
        (\<exists>e'. last_observation (p, m) endpoints = Some e'
              \<and> (op_operationId operation = base_operationId e'
                  \<or> (\<exists>k\<ge>1. op_operationId operation = base_operationId e' @ show_nat k))))
   \<and> base_operationId e
        = methodPrefix (ep_method e) @ capitalize (last_or (path_segments (ep_pathname e)) ''item'')
   \<and> methodPrefix ''GET'' = ''get'' \<and> methodPrefix ''POST'' = ''create''
   \<and> methodPrefix ''PUT'' = ''update'' \<and> methodPrefix ''PATCH'' = ''patch''
   \<and> methodPrefix ''DELETE'' = ''delete''
   \<and> (toUpperCase v \<notin> set [''GET'', ''POST'', ''PUT'', ''DELETE'', ''PATCH'', ''HEAD'', ''OPTIONS'']
        \<longrightarrow> methodPrefix v = toLowerCase v)
   \<and> fst (generateUniqueOperationId g0 v q) \<notin> set (operationIdCache g0)
   \<and> (methodPrefix v @ capitalize (last_or (path_segments q) ''item'') \<notin> set (operationIdCache g0)
        \<longrightarrow> fst (generateUniqueOperationId g0 v q)
              = methodPrefix v @ capitalize (last_or (path_segments q) ''item''))"
proof -
  have first: "lookup_operation (fst (generatePaths g endpoints)) p m = Some operation \<longrightarrow>
        (\<exists>e'. last_observation (p, m) endpoints = Some e'
              \<and> (op_operationId operation = base_operationId e'
                  \<or> (\<exists>k\<ge>1. op_operationId operation = base_operationId e' @ show_nat k)))"
  proof
    assume "lookup_operation (fst (generatePaths g endpoints)) p m = Some operation"
    from operation_in_paths[OF this] obtain e' g' where
      a: "last_observation (p, m) endpoints = Some e'" and b: "operation = fst (generateOperation g' e')"
      by blast
    with operationId_shape[of g' e']
    show "\<exists>e'. last_observation (p, m) endpoints = Some e'
              \<and> (op_operationId operation = base_operationId e'
                  \<or> (\<exists>k\<ge>1. op_operationId operation = base_operationId e' @ show_nat k))"
      by blast
  qed
  have prefixes: "methodPrefix ''GET'' = ''get'' \<and> methodPrefix ''POST'' = ''create''
       \<and> methodPrefix ''PUT'' = ''update'' \<and> methodPrefix ''PATCH'' = ''patch''
       \<and> methodPrefix ''DELETE'' = ''delete''"
    by code_simp
  have fresh: "fst (generateUniqueOperationId g0 v q) \<notin> set (operationIdCache g0)"
    by (simp add: generateUniqueOperationId_id unique_loop_fresh)
  have unused: "methodPrefix v @ capitalize (last_or (path_segments q) ''item'') \<notin> set (operationIdCache g0)
            \<longrightarrow> fst (generateUniqueOperationId g0 v q)
                  = methodPrefix v @ capitalize (last_or (path_segments q) ''item'')"
    by (simp add: generateUniqueOperationId_id unique_loop_unused)
  show ?thesis
    using first prefixes fresh unused methodPrefix_other[of v]
    by (simp add: base_operationId_def)
qed

theorem operationId_from_raw_pathname_witness:
  "(\<exists>operation.
      lookup_operation (fst (generatePaths new_generator
           [observation ''https://api.x.com/users/42'' ''GET'' ''/users/42'' 200,
            observation ''https://api.x.com/users/43'' ''GET'' ''/users/43'' 200]))
         ''/users/{id}'' ''get'' = Some operation
    \<and> (op_operationId operation = ''get43''
        \<or> (\<exists>k\<ge>1. op_operationId operation = ''get43'' @ show_nat k)))
   \<and> methodPrefix ''TRACE'' = ''trace''
   \<and> fst (generateUniqueOperationId new_generator ''GET'' ''/users'') = ''getUsers''"
proof -
  let ?e1 = "observation ''https://api.x.com/users/42'' ''GET'' ''/users/42'' 200"
  let ?e2 = "observation ''https://api.x.com/users/43'' ''GET'' ''/users/43'' 200"
  have o: "lookup_operation (fst (generatePaths new_generator [?e1, ?e2])) ''/users/{id}'' ''get'' \<noteq> None"
    by code_simp
  then obtain operation where
    o: "lookup_operation (fst (generatePaths new_generator [?e1, ?e2])) ''/users/{id}'' ''get'' = Some operation"
    by auto
  have l: "last_observation (''/users/{id}'', ''get'') [?e1, ?e2] = Some ?e2" by code_simp
  have b: "base_operationId ?e2 = ''get43''" by code_simp
  note t = operationId_from_raw_pathname[where endpoints = "[?e1, ?e2]" and g = new_generator
      and p = "''/users/{id}''" and m = "''get''" and operation = operation]
  from t[THEN conjunct1, THEN mp, OF o]
  obtain e' where e': "last_observation (''/users/{id}'', ''get'') [?e1, ?e2] = Some e'"
      "op_operationId operation = base_operationId e'
        \<or> (\<exists>k\<ge>1. op_operationId operation = base_operationId e' @ show_nat k)"
    by (elim exE conjE)
  from e'(1) l have "e' = ?e2" by simp
  with e'(2) b have q: "op_operationId operation = ''get43''
        \<or> (\<exists>k\<ge>1. op_operationId operation = ''get43'' @ show_nat k)"
    by simp
  have first: "\<exists>operation.
      lookup_operation (fst (generatePaths new_generator [?e1, ?e2])) ''/users/{id}'' ''get'' = Some operation
    \<and> (op_operationId operation = ''get43''
        \<or> (\<exists>k\<ge>1. op_operationId operation = ''get43'' @ show_nat k))"
    by (intro exI[of _ operation] conjI) (rule o, rule q)
  have u: "toUpperCase ''TRACE'' \<notin> set [''GET'', ''POST'', ''PUT'', ''DELETE'', ''PATCH'', ''HEAD'', ''OPTIONS'']"
    by code_simp
  have lower: "toLowerCase ''TRACE'' = ''trace''" by code_simp
  note t2 = operationId_from_raw_pathname[where v = "''TRACE''"]
  have trace: "methodPrefix ''TRACE'' = ''trace''"
    using t2[THEN conjunct2, THEN conjunct2, THEN conjunct2, THEN conjunct2, THEN conjunct2,
             THEN conjunct2, THEN conjunct2, THEN conjunct1, THEN mp, OF u] lower
    by simp
  have base: "methodPrefix ''GET'' @ capitalize (last_or (path_segments ''/users'') ''item'') = ''getUsers''"
    by code_simp
  have unused: "methodPrefix ''GET'' @ capitalize (last_or (path_segments ''/users'') ''item'')
                  \<notin> set (operationIdCache new_generator)"
    by (simp add: new_generator_def)
  note t3 = operationId_from_raw_pathname[where v = "''GET''" and q = "''/users''" and ?g0.0 = new_generator]
  have plain: "fst (generateUniqueOperationId new_generator ''GET'' ''/users'') = ''getUsers''"
    using t3[THEN conjunct2, THEN conjunct2, THEN conjunct2, THEN conjunct2, THEN conjunct2,
             THEN conjunct2, THEN conjunct2, THEN conjunct2, THEN conjunct2, THEN mp, OF unused] base
    by simp
  show ?thesis
    by (intro conjI) (rule first, rule trace, rule plain)
qed

text \<open>
  The scenario of the specification: \<^verbatim>\<open>GET /users/42\<close> and \<^verbatim>\<open>GET /users/43\<close> give the single
  path \<^verbatim>\<open>/users/{id}\<close> with one \<^verbatim>\<open>get\<close> operation and one required path parameter of type
  integer, but the identifier of the operation is \<^verbatim>\<open>get43\<close>, not \<^verbatim>\<open>getUsers\<close>.
\<close>

theorem scenario_users_operation:
  "map (\<lambda>(p, item). (p, map (\<lambda>(m, operation).
          (m, op_operationId operation,
           map (\<lambda>q. (pa_name q, pa_in q, pa_required q, pa_schema_type q)) (op_parameters operation))) item))
       (d_paths (fst (generateOpenAPISpec example_urls ''2024'' new_generator
          [observation ''https://api.x.com/users/42'' ''GET'' ''/users/42'' 200,
           observation ''https://api.x.com/users/43'' ''GET'' ''/users/43'' 200] no_options)))
   = [(''/users/{id}'', [(''get'', ''get43'', [(''id'', ''path'', True, ''integer'')])])]"
  by code_simp

text \<open>
  Claim C5, as the code has it. A call of \<^verbatim>\<open>generateOpenAPISpec\<close> reads of its generator
  only the cache of operation identifiers: two generators with the same identifier cache,
  so any two fresh ones, give the same document on the same observations (the time stamp
  being the same). The call does not empty the cache: what it held before, it still holds
  afterwards. Only the constructor leaves it empty.
\<close>

theorem synthesis_reads_only_the_id_cache:
  assumes "operationIdCache g1 = operationIdCache g2"
  shows "fst (generateOpenAPISpec parse now g1 endpoints opts)
           = fst (generateOpenAPISpec parse now g2 endpoints opts)
         \<and> set (operationIdCache g1)
             \<subseteq> set (operationIdCache (snd (generateOpenAPISpec parse now g1 endpoints opts)))
         \<and> operationIdCache new_generator = []"
proof -
  have p: "fst (generatePaths g1 endpoints) = fst (generatePaths g2 endpoints)"
    using paths_from_cache_only[OF assms] by (simp add: generatePaths_def)
  have c: "set (operationIdCache g1) \<subseteq> set (operationIdCache (snd (generatePaths g1 endpoints)))"
    unfolding generatePaths_def by (rule paths_from_cache_grows)
  show ?thesis
    using p c by (auto simp: generateOpenAPISpec_def Let_def new_generator_def split: prod.splits)
qed

theorem synthesis_reads_only_the_id_cache_witness:
  "fst (generateOpenAPISpec example_urls ''2024'' new_generator
          [observation ''https://api.x.com/users'' ''GET'' ''/users'' 200] no_options)
     = fst (generateOpenAPISpec example_urls ''2024''
          \<lparr>schemaCache = [(''Users'', resource_schema ''users'')], operationIdCache = []\<rparr>
          [observation ''https://api.x.com/users'' ''GET'' ''/users'' 200] no_options)
   \<and> operationIdCache new_generator = []"
proof -
  have c: "operationIdCache new_generator
             = operationIdCache \<lparr>schemaCache = [(''Users'', resource_schema ''users'')], operationIdCache = []\<rparr>"
    by (simp add: new_generator_def)
  from synthesis_reads_only_the_id_cache[OF c] show ?thesis by blast
qed

text \<open>
  The same generator called twice on the same observation of \<^verbatim>\<open>GET /users\<close>: the first
  document names the operation \<^verbatim>\<open>getUsers\<close>, the second \<^verbatim>\<open>getUsers1\<close>.
\<close>

theorem second_call_differs:
  "map (\<lambda>(p, item). (p, map (\<lambda>(m, operation). (m, op_operationId operation)) item))
     (d_paths (fst (generateOpenAPISpec example_urls ''2024'' new_generator
        [observation ''https://api.x.com/users'' ''GET'' ''/users'' 200] no_options)))
     = [(''/users'', [(''get'', ''getUsers'')])]
   \<and> map (\<lambda>(p, item). (p, map (\<lambda>(m, operation). (m, op_operationId operation)) item))
     (d_paths (fst (generateOpenAPISpec example_urls ''2024''
        (snd (generateOpenAPISpec example_urls ''2024'' new_generator
           [observation ''https://api.x.com/users'' ''GET'' ''/users'' 200] no_options))
        [observation ''https://api.x.com/users'' ''GET'' ''/users'' 200] no_options)))
     = [(''/users'', [(''get'', ''getUsers1'')])]"
  by code_simp

text \<open>
  Claim C7, as the code has it. Every operation of the document is marked with
  \<^verbatim>\<open>[{bearerAuth: []}]\<close> exactly when the observation it was generated from, the last one
  with its key, carries a header whose lower-cased name contains \<^verbatim>\<open>authorization\<close>,
  \<^verbatim>\<open>api-key\<close> or \<^verbatim>\<open>token\<close>. When some observation carries a header whose lower-cased name
  contains \<^verbatim>\<open>authorization\<close>, the document declares \<^verbatim>\<open>bearerAuth\<close> (type \<^verbatim>\<open>http\<close>, scheme
  \<^verbatim>\<open>bearer\<close>); when no observation carries a header of the three kinds, it declares no
  scheme.
\<close>

theorem security_of_last_observation:
  assumes "endpoints \<noteq> []"
  shows "(lookup_operation (d_paths (fst (generateOpenAPISpec parse now g endpoints opts))) p m = Some operation \<longrightarrow>
           (\<exists>e'. last_observation (p, m) endpoints = Some e'
                 \<and> op_security operation = (if has_header auth_like e' then [''bearerAuth''] else [])))
       \<and> (list_ex (has_header (\<lambda>h. includes_str (toLowerCase h) ''authorization'')) endpoints \<longrightarrow>
            co_securitySchemes (d_components (fst (generateOpenAPISpec parse now g endpoints opts)))
              = Some [(''bearerAuth'', \<lparr>ss_type = ''http'', ss_scheme = ''bearer'', ss_bearerFormat = ''JWT''\<rparr>)])
       \<and> (\<not> list_ex (has_header auth_like) endpoints \<longrightarrow>
            co_securitySchemes (d_components (fst (generateOpenAPISpec parse now g endpoints opts))) = Some [])"
proof (intro conjI impI)
  assume "lookup_operation (d_paths (fst (generateOpenAPISpec parse now g endpoints opts))) p m = Some operation"
  then have "lookup_operation (fst (generatePaths g endpoints)) p m = Some operation"
    unfolding d_paths_eq[OF assms] .
  from operation_in_paths[OF this] obtain e' g' where
    a: "last_observation (p, m) endpoints = Some e'" and b: "operation = fst (generateOperation g' e')"
    by blast
  have "op_security (fst (generateOperation g' e')) = (if has_header auth_like e' then [''bearerAuth''] else [])"
    by (simp add: generateOperation_security generateSecurity_has_header)
  with a b show "\<exists>e'. last_observation (p, m) endpoints = Some e'
                 \<and> op_security operation = (if has_header auth_like e' then [''bearerAuth''] else [])"
    by blast
next
  assume "list_ex (has_header (\<lambda>h. includes_str (toLowerCase h) ''authorization'')) endpoints"
  then show "co_securitySchemes (d_components (fst (generateOpenAPISpec parse now g endpoints opts)))
              = Some [(''bearerAuth'', \<lparr>ss_type = ''http'', ss_scheme = ''bearer'', ss_bearerFormat = ''JWT''\<rparr>)]"
    unfolding d_schemes_eq[OF assms] by (simp add: generateSecuritySchemes_has_header)
next
  assume n: "\<not> list_ex (has_header auth_like) endpoints"
  have "\<not> list_ex (has_header (\<lambda>h. includes_str (toLowerCase h) ''authorization'')) endpoints"
    using n authorization_is_auth_like by (auto simp: list_ex_iff)
  then show "co_securitySchemes (d_components (fst (generateOpenAPISpec parse now g endpoints opts))) = Some []"
    unfolding d_schemes_eq[OF assms] by (simp add: generateSecuritySchemes_has_header)
qed

theorem security_of_last_observation_witness:
  "(\<exists>operation.
      lookup_operation (d_paths (fst (generateOpenAPISpec example_urls ''2024'' new_generator
         [with_headers (observation ''https://api.x.com/users'' ''GET'' ''/users'' 200)
            [(''Authorization'', ''[REDACTED]'')]] no_options))) ''/users'' ''get'' = Some operation
      \<and> op_security operation = [''bearerAuth''])
   \<and> co_securitySchemes (d_components (fst (generateOpenAPISpec example_urls ''2024'' new_generator
         [with_headers (observation ''https://api.x.com/users'' ''GET'' ''/users'' 200)
            [(''Authorization'', ''[REDACTED]'')]] no_options)))
        = Some [(''bearerAuth'', \<lparr>ss_type = ''http'', ss_scheme = ''bearer'', ss_bearerFormat = ''JWT''\<rparr>)]
   \<and> co_securitySchemes (d_components (fst (generateOpenAPISpec example_urls ''2024'' new_generator
         [with_headers (observation ''https://api.x.com/users'' ''GET'' ''/users'' 200)
            [(''Accept'', ''application/json'')]] no_options)))
        = Some []"
proof -
  let ?e = "with_headers (observation ''https://api.x.com/users'' ''GET'' ''/users'' 200)
                       [(''Authorization'', ''[REDACTED]'')]"
  let ?f = "with_headers (observation ''https://api.x.com/users'' ''GET'' ''/users'' 200)
                       [(''Accept'', ''application/json'')]"
  have ne: "[?e] \<noteq> []" by simp
  have nf: "[?f] \<noteq> []" by simp
  have o: "lookup_operation (d_paths (fst (generateOpenAPISpec example_urls ''2024'' new_generator [?e] no_options)))
             ''/users'' ''get'' \<noteq> None"
    by code_simp
  then obtain operation where
    o: "lookup_operation (d_paths (fst (generateOpenAPISpec example_urls ''2024'' new_generator [?e] no_options)))
             ''/users'' ''get'' = Some operation"
    by auto
  have h1: "has_header auth_like ?e" by code_simp
  have h2: "list_ex (has_header (\<lambda>h. includes_str (toLowerCase h) ''authorization'')) [?e]" by code_simp
  have h3: "\<not> list_ex (has_header auth_like) [?f]" by code_simp
  have l: "last_observation (''/users'', ''get'') [?e] = Some ?e" by code_simp
  note t = security_of_last_observation[OF ne, where parse = example_urls and now = "''2024''"
      and g = new_generator and opts = no_options and p = "''/users''" and m = "''get''"
      and operation = operation]
  from t[THEN conjunct1, THEN mp, OF o]
  obtain e' where e': "last_observation (''/users'', ''get'') [?e] = Some e'"
      "op_security operation = (if has_header auth_like e' then [''bearerAuth''] else [])"
    by (elim exE conjE)
  from e'(1) l have "e' = ?e" by simp
  with e'(2) h1 have s: "op_security operation = [''bearerAuth'']" by simp
  have c: "co_securitySchemes (d_components (fst (generateOpenAPISpec example_urls ''2024'' new_generator
         [?e] no_options)))
        = Some [(''bearerAuth'', \<lparr>ss_type = ''http'', ss_scheme = ''bearer'', ss_bearerFormat = ''JWT''\<rparr>)]"
    by (rule t[THEN conjunct2, THEN conjunct1, THEN mp, OF h2])
  note t' = security_of_last_observation[OF nf, where parse = example_urls and now = "''2024''"
      and g = new_generator and opts = no_options]
  have d: "co_securitySchemes (d_components (fst (generateOpenAPISpec example_urls ''2024'' new_generator
         [?f] no_options))) = Some []"
    by (rule t'[THEN conjunct2, THEN conjunct2, THEN mp, OF h3])
  show ?thesis
    by (intro exI[of _ operation] conjI) (rule o, rule s, rule c, rule d)
qed

text \<open>
  Two observations of \<^verbatim>\<open>GET /users\<close>, the first with an \<^verbatim>\<open>Authorization\<close> header, the second
  without headers: the operation of the document is not marked, though the scheme is declared.
\<close>

theorem security_of_overwritten_observation_lost:
  "(let endpoints = [with_headers (observation ''https://api.x.com/users'' ''GET'' ''/users'' 200)
                       [(''Authorization'', ''[REDACTED]'')],
                     observation ''https://api.x.com/users'' ''GET'' ''/users'' 200];
        doc = fst (generateOpenAPISpec example_urls ''2024'' new_generator endpoints no_options)
    in has_header auth_like (hd endpoints)
       \<and> operation_key (hd endpoints) = (''/users'', ''get'')
       \<and> map_option op_security (lookup_operation (d_paths doc) ''/users'' ''get'') = Some []
       \<and> co_securitySchemes (d_components doc)
            = Some [(''bearerAuth'', \<lparr>ss_type = ''http'', ss_scheme = ''bearer'', ss_bearerFormat = ''JWT''\<rparr>)])"
  by code_simp

text \<open>
  Claim C4 at one observation of \<^verbatim>\<open>GET /users/42\<close>: the response of the operation refers to
  the schema \<^verbatim>\<open>42\<close>, named after the last segment of the observation's path, while the
  schemas of the document are named after the template of the group.
\<close>

theorem dangling_schema_reference:
  "(let doc = fst (generateOpenAPISpec example_urls ''2024'' new_generator
                 [observation ''https://api.x.com/users/42'' ''GET'' ''/users/42'' 200] no_options)
    in paths_refs (d_paths doc) = [''#/components/schemas/42'']
       \<and> map fst (co_schemas (d_components doc)) = [''{id}'', ''{id}Input'', ''Error'']
       \<and> \<not> resolves doc ''#/components/schemas/42'')"
  by code_simp

end
